theory Spec2Isabelle
  imports Main "HOL-Library.Word"
begin

section \<open>Data model of the multicast API registry\<close>

text \<open>
  The embedding follows \<^verbatim>\<open>ApiRegistryMulticast.go\<close>. Strings are byte strings,
  Go's \<^verbatim>\<open>int\<close> ports are integers that are only stored and compared, and a
  \<^verbatim>\<open>time.Time\<close> is a point on one integer time line (nanoseconds), a
  \<^verbatim>\<open>time.Duration\<close> a signed number of nanoseconds. \<^verbatim>\<open>Time.Add\<close> does not
  wrap around, so \<^verbatim>\<open>t.Add(d)\<close> is the integer sum; \<^verbatim>\<open>After\<close> and
  \<^verbatim>\<open>Before\<close> are the strict orders of the time line.
\<close>

type_synonym Time = int
type_synonym Duration = int
type_synonym bytes = "8 word list"

definition Add :: "Time \<Rightarrow> Duration \<Rightarrow> Time" where
  "Add t d = t + d"

definition After :: "Time \<Rightarrow> Time \<Rightarrow> bool" where
  "After t u = (u < t)"

definition Before :: "Time \<Rightarrow> Time \<Rightarrow> bool" where
  "Before t u = (t < u)"

definition RegistrationMessageSizeBytes :: nat where
  "RegistrationMessageSizeBytes = 1400"

definition RegistrationLifeSpan :: Duration where
  "RegistrationLifeSpan = 1000000000 * 90"

text \<open>
  The struct behind the \<^verbatim>\<open>Api\<close> interface. Its declaration is not part of the
  source file; the fields are the four values that \<^verbatim>\<open>listenMutlicast\<close> stores and
  that \<^verbatim>\<open>getRegMatch\<close> reads back through \<^verbatim>\<open>Name()\<close>, \<^verbatim>\<open>Version()\<close>,
  \<^verbatim>\<open>HostIP().String()\<close> and \<^verbatim>\<open>HostPort()\<close>. The host address is kept in the
  textual form that the comparison uses.
\<close>

record apiImpl =
  Name :: string
  Version :: string
  HostIP :: string
  HostPort :: int

record apiRegistration =
  api :: apiImpl
  timeRegistered :: Time
  lifeSpan :: Duration

record ownedApi =
  name :: string
  version :: string
  port :: int

record apiRegisterMessageJSON =
  ApiName :: string
  ApiVersion :: string
  ApiPort :: int
  LifeSpan :: Duration

text \<open>
  Errors are values. \<^verbatim>\<open>errors.New\<close> builds an error from its text; the errors of
  the network and of the JSON codec come from the environment.
\<close>

datatype error = errorsNew string | netOpError string | jsonError string

text \<open>
  The remote map holds slices of pointers to \<^verbatim>\<open>apiRegistration\<close> objects, and
  \<^verbatim>\<open>updateApis\<close> writes through such a pointer. The objects live in an explicit
  store: a pointer is an address, \<open>regHeap\<close> gives the object at an address and
  \<open>nextReg\<close> is the next address that an allocation returns. The two mutexes
  carry no data, so they have no field here; the calls on them are modelled apart, in
  the section on the two locks.
\<close>

type_synonym addr = nat

record multicastApiRegistry =
  regHeap :: "addr \<Rightarrow> apiRegistration"
  nextReg :: addr
  apiRegs :: "string \<rightharpoonup> addr list"
  ownedRegs :: "string \<rightharpoonup> ownedApi"

text \<open>
  What one call of \<^verbatim>\<open>sendApiRegistration\<close> meets outside the program: the result
  of \<^verbatim>\<open>net.DialUDP\<close>, the JSON encoder for the message struct (whose declaration
  with its field tags is not part of the source file) and the result of
  \<^verbatim>\<open>conn.Write\<close>. What the call does to the network is a list of events.
\<close>

record netEnv =
  dialUDP :: "error option"
  jsonEncode :: "apiRegisterMessageJSON \<Rightarrow> error + bytes"
  connWrite :: "bytes \<Rightarrow> error option"

datatype netEvent = Dialed | Wrote bytes

text \<open>
  Successive readings of \<^verbatim>\<open>time.Now()\<close> inside one operation: \<open>clk i\<close> is the
  \<open>i\<close>-th reading still to come.
\<close>

type_synonym clock = "nat \<Rightarrow> Time"

definition advance :: "nat \<Rightarrow> clock \<Rightarrow> clock" where
  "advance k clk = (\<lambda>i. clk (i + k))"

section \<open>Operations\<close>

definition emptyRegistry :: multicastApiRegistry where
  "emptyRegistry =
     \<lparr>regHeap = (\<lambda>_. \<lparr>api = \<lparr>Name = [], Version = [], HostIP = [], HostPort = 0\<rparr>,
                         timeRegistered = 0, lifeSpan = 0\<rparr>),
      nextReg = 0, apiRegs = Map.empty, ownedRegs = Map.empty\<rparr>"

definition NewRegistry :: "error option \<Rightarrow> error + multicastApiRegistry" where
  "NewRegistry listenErr =
     (case listenErr of Some err \<Rightarrow> Inl err | None \<Rightarrow> Inr emptyRegistry)"

definition ownsApi :: "multicastApiRegistry \<Rightarrow> string \<Rightarrow> bool" where
  "ownsApi this n = (case ownedRegs this n of None \<Rightarrow> False | Some _ \<Rightarrow> True)"

definition sendApiRegistration ::
  "netEnv \<Rightarrow> string \<Rightarrow> string \<Rightarrow> int \<Rightarrow> error option \<times> netEvent list" where
  "sendApiRegistration env n v p =
     (case dialUDP env of
        Some err \<Rightarrow> (Some err, [Dialed])
      | None \<Rightarrow>
          (case jsonEncode env \<lparr>ApiName = n, ApiVersion = v, ApiPort = p,
                                LifeSpan = RegistrationLifeSpan\<rparr> of
             Inl err \<Rightarrow> (Some err, [Dialed])
           | Inr dataOut \<Rightarrow>
               if length dataOut > RegistrationMessageSizeBytes
               then (Some (errorsNew (''Message size for'' @ n @ v @
                       ''exceeds max length of'' @ ''1400'' @ ''bytes'')), [Dialed])
               else (connWrite env dataOut, [Dialed, Wrote dataOut])))"

definition RegisterApi ::
  "netEnv \<Rightarrow> multicastApiRegistry \<Rightarrow> string \<Rightarrow> string \<Rightarrow> int
     \<Rightarrow> error option \<times> multicastApiRegistry \<times> netEvent list" where
  "RegisterApi env this n v p =
     (if n = [] then
        (Some (errorsNew ''name was empty and name is a required parameter''), this, [])
      else if v = [] then
        (Some (errorsNew ''version was empty and version is a required parameter''), this, [])
      else if ownsApi this n then (None, this, [])
      else
        (case sendApiRegistration env n v p of
           (None, evs) \<Rightarrow>
             (None,
              this\<lparr>ownedRegs := (ownedRegs this)(n \<mapsto> \<lparr>name = n, version = v, port = p\<rparr>)\<rparr>,
              evs)
         | (Some err, evs) \<Rightarrow> (Some err, this, evs)))"

text \<open>The slice stored under a name; a missing key reads as the empty slice.\<close>

definition regsAt :: "multicastApiRegistry \<Rightarrow> string \<Rightarrow> addr list" where
  "regsAt this n = (case apiRegs this n of None \<Rightarrow> [] | Some regs \<Rightarrow> regs)"

definition expiry :: "apiRegistration \<Rightarrow> Time" where
  "expiry r = Add (timeRegistered r) (lifeSpan r)"

fun activeApis :: "(addr \<Rightarrow> apiRegistration) \<Rightarrow> Time \<Rightarrow> addr list \<Rightarrow> apiImpl list" where
  "activeApis h now [] = []"
| "activeApis h now (curReg # regs) =
     (if After (expiry (h curReg)) now then api (h curReg) # activeApis h now regs
      else activeApis h now regs)"

definition GetApisByApiName :: "multicastApiRegistry \<Rightarrow> Time \<Rightarrow> string \<Rightarrow> apiImpl list" where
  "GetApisByApiName this now n = activeApis (regHeap this) now (regsAt this n)"

text \<open>
  \<^verbatim>\<open>range\<close> over a Go map visits every key once, in an order the runtime picks. The
  order is an argument \<open>ks\<close> of the operations that range over the remote map. Each
  call of \<^verbatim>\<open>GetApisByApiName\<close> reads the clock once.
\<close>

fun GetAvailableApis :: "multicastApiRegistry \<Rightarrow> clock \<Rightarrow> string list \<Rightarrow> apiImpl list" where
  "GetAvailableApis this clk [] = []"
| "GetAvailableApis this clk (curApiName # ks) =
     GetApisByApiName this (clk 0) curApiName @ GetAvailableApis this (advance 1 clk) ks"

fun expiredOf :: "(addr \<Rightarrow> apiRegistration) \<Rightarrow> Time \<Rightarrow> addr list \<Rightarrow> addr list" where
  "expiredOf h now [] = []"
| "expiredOf h now (curReg # regs) =
     (if Before (expiry (h curReg)) now then curReg # expiredOf h now regs
      else expiredOf h now regs)"

fun findExpiredApiRegs :: "multicastApiRegistry \<Rightarrow> Time \<Rightarrow> string list \<Rightarrow> addr list" where
  "findExpiredApiRegs this now [] = []"
| "findExpiredApiRegs this now (k # ks) =
     expiredOf (regHeap this) now (regsAt this k) @ findExpiredApiRegs this now ks"

text \<open>
  The inner loop of the cleanup reads the clock once for every registration it looks at.
\<close>

fun retainActive :: "(addr \<Rightarrow> apiRegistration) \<Rightarrow> clock \<Rightarrow> addr list \<Rightarrow> addr list" where
  "retainActive h clk [] = []"
| "retainActive h clk (cur # regs) =
     (if After (expiry (h cur)) (clk 0) then cur # retainActive h (advance 1 clk) regs
      else retainActive h (advance 1 clk) regs)"

text \<open>
  The body of the outer loop of the cleanup, for the name \<open>k\<close> of one expired
  registration: the slice of the name is rebuilt from its active registrations, and the
  name is deleted when none is left.
\<close>

definition rebuildRegsForName ::
  "clock \<Rightarrow> string \<Rightarrow> multicastApiRegistry \<Rightarrow> multicastApiRegistry" where
  "rebuildRegsForName clk k this =
     (let origRegsForName = regsAt this k;
          newRegsForName = retainActive (regHeap this) clk origRegsForName
      in if length newRegsForName > 0
         then this\<lparr>apiRegs := (apiRegs this)(k \<mapsto> newRegsForName)\<rparr>
         else this\<lparr>apiRegs := (apiRegs this)(k := None)\<rparr>)"

fun sweepExpired :: "clock \<Rightarrow> addr list \<Rightarrow> multicastApiRegistry \<Rightarrow> multicastApiRegistry" where
  "sweepExpired clk [] this = this"
| "sweepExpired clk (curExpiredReg # expiredApiRegs) this =
     (let k = Name (api (regHeap this curExpiredReg))
      in sweepExpired (advance (length (regsAt this k)) clk) expiredApiRegs
           (rebuildRegsForName clk k this))"

text \<open>One tick of \<^verbatim>\<open>cleanupExpiredRegLoop\<close>.\<close>

definition cleanupExpiredRegs ::
  "string list \<Rightarrow> clock \<Rightarrow> multicastApiRegistry \<Rightarrow> multicastApiRegistry" where
  "cleanupExpiredRegs ks clk this =
     (let expiredApiRegs = findExpiredApiRegs this (clk 0) ks
      in if length expiredApiRegs > 0 then sweepExpired (advance 1 clk) expiredApiRegs this
         else this)"

fun getRegMatch :: "apiImpl \<Rightarrow> (addr \<Rightarrow> apiRegistration) \<Rightarrow> addr list \<Rightarrow> addr option" where
  "getRegMatch a h [] = None"
| "getRegMatch a h (curReg # apis) =
     (if Name a = Name (api (h curReg)) \<and> Version a = Version (api (h curReg)) \<and>
         HostIP a = HostIP (api (h curReg)) \<and> HostPort a = HostPort (api (h curReg))
      then Some curReg else getRegMatch a h apis)"

definition newRegistration ::
  "apiRegistration \<Rightarrow> multicastApiRegistry \<Rightarrow> addr \<times> multicastApiRegistry" where
  "newRegistration r this =
     (nextReg this,
      this\<lparr>regHeap := (regHeap this)(nextReg this := r), nextReg := Suc (nextReg this)\<rparr>)"

definition updateApis ::
  "apiImpl \<Rightarrow> Duration \<Rightarrow> Time \<Rightarrow> multicastApiRegistry \<Rightarrow> multicastApiRegistry" where
  "updateApis a lifespan now this =
     (case apiRegs this (Name a) of
        None \<Rightarrow>
          (case newRegistration \<lparr>api = a, timeRegistered = now, lifeSpan = lifespan\<rparr> this of
             (newRecord, this') \<Rightarrow>
               this'\<lparr>apiRegs := (apiRegs this')(Name a \<mapsto> [newRecord])\<rparr>)
      | Some apisForName \<Rightarrow>
          (case getRegMatch a (regHeap this) apisForName of
             Some matchReg \<Rightarrow>
               this\<lparr>regHeap := (regHeap this)
                 (matchReg := (regHeap this matchReg)\<lparr>timeRegistered := now\<rparr>)\<rparr>
           | None \<Rightarrow>
               (case newRegistration \<lparr>api = a, timeRegistered = now, lifeSpan = lifespan\<rparr> this of
                  (newRecord, this') \<Rightarrow>
                    this'\<lparr>apiRegs := (apiRegs this')(Name a \<mapsto> apisForName @ [newRecord])\<rparr>)))"

text \<open>
  One iteration of \<^verbatim>\<open>listenMutlicast\<close>. The read either fails or delivers a
  datagram with the sender's address; the JSON decoder for the message struct is an
  argument. A failed read and a failed decode are logged and leave the registry as it is.
\<close>

definition listenMutlicast ::
  "(bytes \<Rightarrow> error + apiRegisterMessageJSON) \<Rightarrow> error + (bytes \<times> string) \<Rightarrow> Time
     \<Rightarrow> multicastApiRegistry \<Rightarrow> multicastApiRegistry" where
  "listenMutlicast jsonDecode readFromUDP now this =
     (case readFromUDP of
        Inl err \<Rightarrow> this
      | Inr (datagram, rAddrIP) \<Rightarrow>
          (case jsonDecode datagram of
             Inl err \<Rightarrow> this
           | Inr message \<Rightarrow>
               updateApis \<lparr>Name = ApiName message, Version = ApiVersion message,
                           HostIP = rAddrIP, HostPort = ApiPort message\<rparr>
                 (LifeSpan message) now this))"

section \<open>The registrations as data, invariants and reachable registries\<close>

text \<open>The registrations stored under a name, read through their pointers.\<close>

definition registrations :: "multicastApiRegistry \<Rightarrow> string \<Rightarrow> apiRegistration list" where
  "registrations this n = map (regHeap this) (regsAt this n)"

text \<open>
  A stored slice is never empty, its registrations carry pairwise different Apis and the
  name they are stored under, and every pointer in it has been allocated. The last two
  facts say that no registration object is shared between two slots of the remote map.
\<close>

definition regInv :: "multicastApiRegistry \<Rightarrow> bool" where
  "regInv this =
     (\<forall>k regs. apiRegs this k = Some regs \<longrightarrow>
        regs \<noteq> [] \<and> distinct (map (\<lambda>p. api (regHeap this p)) regs) \<and>
        (\<forall>p \<in> set regs. p < nextReg this \<and> Name (api (regHeap this p)) = k))"

text \<open>An owned service is stored under its own name, and that name is not empty.\<close>

definition ownedInv :: "multicastApiRegistry \<Rightarrow> bool" where
  "ownedInv this = (\<forall>k oa. ownedRegs this k = Some oa \<longrightarrow> k \<noteq> [] \<and> name oa = k)"

text \<open>
  The registries a process can get into: the one \<^verbatim>\<open>NewRegistry\<close> builds, changed
  by calls of \<^verbatim>\<open>RegisterApi\<close>, by iterations of the listener and by the cleanup. A
  tick of the cleanup either does nothing or runs its loop over the expired registrations
  it has found; since the listener may run between the search and the loop, the loop is
  taken with any list of pointers and any clock.
\<close>

inductive reachable :: "multicastApiRegistry \<Rightarrow> bool" where
  init: "reachable emptyRegistry"
| register: "reachable this \<Longrightarrow> RegisterApi env this n v p = (err, this', evs) \<Longrightarrow> reachable this'"
| listen: "reachable this \<Longrightarrow> reachable (listenMutlicast jsonDecode readFromUDP now this)"
| sweep: "reachable this \<Longrightarrow> reachable (sweepExpired clk expiredApiRegs this)"


section \<open>Example environments and registries\<close>

text \<open>
  A network on which a send succeeds, one on which no socket can be opened, and one whose
  encoder produces a message of 1401 bytes; the registry after a first successful
  \<^verbatim>\<open>RegisterApi("search", "1.0", 8080)\<close>.
\<close>

definition okEnv :: netEnv where
  "okEnv = \<lparr>dialUDP = None, jsonEncode = (\<lambda>m. Inr (replicate 64 0)), connWrite = (\<lambda>d. None)\<rparr>"

definition downEnv :: netEnv where
  "downEnv = \<lparr>dialUDP = Some (netOpError ''network is unreachable''),
              jsonEncode = (\<lambda>m. Inr (replicate 1401 0)), connWrite = (\<lambda>d. None)\<rparr>"

definition bigEnv :: netEnv where
  "bigEnv = \<lparr>dialUDP = None, jsonEncode = (\<lambda>m. Inr (replicate 1401 0)), connWrite = (\<lambda>d. None)\<rparr>"

definition searchOwned :: multicastApiRegistry where
  "searchOwned = emptyRegistry\<lparr>ownedRegs :=
      [''search'' \<mapsto> \<lparr>name = ''search'', version = ''1.0'', port = 8080\<rparr>]\<rparr>"


text \<open>
  Announcements seen on the network: one Api of the service \<^verbatim>\<open>search\<close>, a second
  one of another version on another host, the registries after the first and after both
  have been received, a registry whose only registration was received at time 0 with a
  lifespan of 10, and a message without name and version and with a negative port.
\<close>

definition searchApi :: apiImpl where
  "searchApi = \<lparr>Name = ''search'', Version = ''1.0'', HostIP = ''10.0.0.7'', HostPort = 8080\<rparr>"

definition searchApi2 :: apiImpl where
  "searchApi2 = \<lparr>Name = ''search'', Version = ''2.0'', HostIP = ''10.0.0.8'', HostPort = 9090\<rparr>"

definition seenOnce :: multicastApiRegistry where
  "seenOnce = updateApis searchApi 90 5 emptyRegistry"

definition seenTwo :: multicastApiRegistry where
  "seenTwo = updateApis searchApi2 10 6 seenOnce"

definition seenBoundary :: multicastApiRegistry where
  "seenBoundary = updateApis searchApi 10 0 emptyRegistry"

definition namelessMessage :: apiRegisterMessageJSON where
  "namelessMessage = \<lparr>ApiName = [], ApiVersion = [], ApiPort = - 1, LifeSpan = 90\<rparr>"

section \<open>The two locks\<close>

text \<open>
  The calls on the two mutexes that each operation makes, in the order of the source. An
  operation's calls depend on the same tests as its result: \<^verbatim>\<open>RegisterApi\<close> locks
  the owned map for writing only after a successful send, a tick of the cleanup locks the
  remote map for writing only when it has found an expired registration, and
  \<^verbatim>\<open>GetAvailableApis\<close> calls \<^verbatim>\<open>GetApisByApiName\<close>, which locks for reading, once
  for every name, while it holds the read lock itself.
\<close>

datatype mutex = apisRWMutex | ownedRegsRWMutex

datatype lockEvent = RLock mutex | RUnlock mutex | Lock mutex | Unlock mutex

fun mutexOf :: "lockEvent \<Rightarrow> mutex" where
  "mutexOf (RLock m) = m"
| "mutexOf (RUnlock m) = m"
| "mutexOf (Lock m) = m"
| "mutexOf (Unlock m) = m"

definition ownsApi_locks :: "lockEvent list" where
  "ownsApi_locks = [RLock ownedRegsRWMutex, RUnlock ownedRegsRWMutex]"

definition RegisterApi_locks ::
  "netEnv \<Rightarrow> multicastApiRegistry \<Rightarrow> string \<Rightarrow> string \<Rightarrow> int \<Rightarrow> lockEvent list" where
  "RegisterApi_locks env this n v p =
     (if n = [] then []
      else if v = [] then []
      else ownsApi_locks @
        (if ownsApi this n then []
         else (case fst (sendApiRegistration env n v p) of
                 None \<Rightarrow> [Lock ownedRegsRWMutex, Unlock ownedRegsRWMutex]
               | Some err \<Rightarrow> [])))"

definition processRegResends_locks :: "lockEvent list" where
  "processRegResends_locks = [RLock ownedRegsRWMutex, RUnlock ownedRegsRWMutex]"

definition GetApisByApiName_locks :: "lockEvent list" where
  "GetApisByApiName_locks = [RLock apisRWMutex, RUnlock apisRWMutex]"

fun GetAvailableApis_range :: "string list \<Rightarrow> lockEvent list" where
  "GetAvailableApis_range [] = []"
| "GetAvailableApis_range (curApiName # ks) = GetApisByApiName_locks @ GetAvailableApis_range ks"

definition GetAvailableApis_locks :: "string list \<Rightarrow> lockEvent list" where
  "GetAvailableApis_locks ks =
     [RLock apisRWMutex] @ GetAvailableApis_range ks @ [RUnlock apisRWMutex]"

definition findExpiredApiRegs_locks :: "lockEvent list" where
  "findExpiredApiRegs_locks = [RLock apisRWMutex, RUnlock apisRWMutex]"

definition cleanupExpiredRegs_locks ::
  "string list \<Rightarrow> clock \<Rightarrow> multicastApiRegistry \<Rightarrow> lockEvent list" where
  "cleanupExpiredRegs_locks ks clk this =
     findExpiredApiRegs_locks @
       (if length (findExpiredApiRegs this (clk 0) ks) > 0
        then [Lock apisRWMutex, Unlock apisRWMutex] else [])"

definition updateApis_locks :: "lockEvent list" where
  "updateApis_locks = [Lock apisRWMutex, Unlock apisRWMutex]"

definition listenMutlicast_locks ::
  "(bytes \<Rightarrow> error + apiRegisterMessageJSON) \<Rightarrow> error + (bytes \<times> string) \<Rightarrow> lockEvent list" where
  "listenMutlicast_locks jsonDecode readFromUDP =
     (case readFromUDP of
        Inl err \<Rightarrow> []
      | Inr (datagram, rAddrIP) \<Rightarrow>
          (case jsonDecode datagram of Inl err \<Rightarrow> [] | Inr message \<Rightarrow> updateApis_locks))"

text \<open>The operations of the registry, each with what decides its lock calls.\<close>

datatype operation =
    OwnsApi
  | RegisterApiCall netEnv multicastApiRegistry string string int
  | ProcessRegResends
  | GetAvailableApisCall "string list"
  | GetApisByApiNameCall
  | FindExpiredApiRegs
  | CleanupTick "string list" clock multicastApiRegistry
  | UpdateApis
  | ListenIteration "bytes \<Rightarrow> error + apiRegisterMessageJSON" "error + (bytes \<times> string)"

fun locksOf :: "operation \<Rightarrow> lockEvent list" where
  "locksOf OwnsApi = ownsApi_locks"
| "locksOf (RegisterApiCall env this n v p) = RegisterApi_locks env this n v p"
| "locksOf ProcessRegResends = processRegResends_locks"
| "locksOf (GetAvailableApisCall ks) = GetAvailableApis_locks ks"
| "locksOf GetApisByApiNameCall = GetApisByApiName_locks"
| "locksOf FindExpiredApiRegs = findExpiredApiRegs_locks"
| "locksOf (CleanupTick ks clk this) = cleanupExpiredRegs_locks ks clk this"
| "locksOf UpdateApis = updateApis_locks"
| "locksOf (ListenIteration jsonDecode readFromUDP) = listenMutlicast_locks jsonDecode readFromUDP"

text \<open>
  How often a goroutine that has made the calls \<open>evs\<close> holds the mutex \<open>m\<close>:
  acquisitions less releases.
\<close>

fun heldCount :: "mutex \<Rightarrow> lockEvent list \<Rightarrow> int" where
  "heldCount m [] = 0"
| "heldCount m (e # evs) =
     (if mutexOf e = m
      then (case e of RLock _ \<Rightarrow> 1 | Lock _ \<Rightarrow> 1 | RUnlock _ \<Rightarrow> - 1 | Unlock _ \<Rightarrow> - 1)
      else 0) + heldCount m evs"

text \<open>
  \<^verbatim>\<open>sync.RWMutex\<close> belongs to Go's library; this is its documented behaviour. Any
  number of readers or one writer hold the mutex. \<^verbatim>\<open>Lock\<close> first announces the
  writer and then waits until no reader and no writer holds the mutex; from the
  announcement until the writer's \<^verbatim>\<open>Unlock\<close>, \<^verbatim>\<open>RLock\<close> blocks. A goroutine
  is the list of lock calls it still has to make, with a mark for an announced
  \<^verbatim>\<open>Lock\<close>; the scheduler picks the goroutine that moves next.
\<close>

record rwMutex =
  readerCount :: nat
  writerHeld :: bool
  writersWaiting :: nat

record goroutine =
  lockWait :: bool
  todo :: "lockEvent list"

record scheduling =
  mutexes :: "mutex \<Rightarrow> rwMutex"
  goroutines :: "goroutine list"

definition canStep :: "(mutex \<Rightarrow> rwMutex) \<Rightarrow> goroutine \<Rightarrow> bool" where
  "canStep mu g =
     (case todo g of
        [] \<Rightarrow> False
      | RLock m # rest \<Rightarrow> \<not> writerHeld (mu m) \<and> writersWaiting (mu m) = 0
      | RUnlock m # rest \<Rightarrow> True
      | Lock m # rest \<Rightarrow>
          (if lockWait g then readerCount (mu m) = 0 \<and> \<not> writerHeld (mu m) else True)
      | Unlock m # rest \<Rightarrow> True)"

definition doStep ::
  "(mutex \<Rightarrow> rwMutex) \<Rightarrow> goroutine \<Rightarrow> (mutex \<Rightarrow> rwMutex) \<times> goroutine" where
  "doStep mu g =
     (case todo g of
        [] \<Rightarrow> (mu, g)
      | RLock m # rest \<Rightarrow>
          (mu(m := (mu m)\<lparr>readerCount := Suc (readerCount (mu m))\<rparr>), g\<lparr>todo := rest\<rparr>)
      | RUnlock m # rest \<Rightarrow>
          (mu(m := (mu m)\<lparr>readerCount := readerCount (mu m) - 1\<rparr>), g\<lparr>todo := rest\<rparr>)
      | Lock m # rest \<Rightarrow>
          (if lockWait g
           then (mu(m := (mu m)\<lparr>writerHeld := True,
                                  writersWaiting := writersWaiting (mu m) - 1\<rparr>),
                 g\<lparr>lockWait := False, todo := rest\<rparr>)
           else (mu(m := (mu m)\<lparr>writersWaiting := Suc (writersWaiting (mu m))\<rparr>),
                 g\<lparr>lockWait := True\<rparr>))
      | Unlock m # rest \<Rightarrow>
          (mu(m := (mu m)\<lparr>writerHeld := False\<rparr>), g\<lparr>todo := rest\<rparr>))"

definition stepGoroutine :: "nat \<Rightarrow> scheduling \<Rightarrow> scheduling option" where
  "stepGoroutine i c =
     (if i < length (goroutines c) \<and> canStep (mutexes c) (goroutines c ! i)
      then (case doStep (mutexes c) (goroutines c ! i) of
              (mu, g) \<Rightarrow> Some \<lparr>mutexes = mu, goroutines = (goroutines c)[i := g]\<rparr>)
      else None)"

fun runSchedule :: "nat list \<Rightarrow> scheduling \<Rightarrow> scheduling option" where
  "runSchedule [] c = Some c"
| "runSchedule (i # sched) c =
     (case stepGoroutine i c of None \<Rightarrow> None | Some c' \<Rightarrow> runSchedule sched c')"

definition start :: "lockEvent list list \<Rightarrow> scheduling" where
  "start traces =
     \<lparr>mutexes = (\<lambda>m. \<lparr>readerCount = 0, writerHeld = False, writersWaiting = 0\<rparr>),
      goroutines = map (\<lambda>evs. \<lparr>lockWait = False, todo = evs\<rparr>) traces\<rparr>"

text \<open>A deadlock: some goroutine has calls left and none can move.\<close>

definition stuck :: "scheduling \<Rightarrow> bool" where
  "stuck c \<longleftrightarrow>
     list_ex (\<lambda>g. todo g \<noteq> []) (goroutines c) \<and>
     list_all (\<lambda>g. \<not> canStep (mutexes c) g) (goroutines c)"

text \<open>A writer holds a mutex only when no reader does.\<close>

definition exclusive :: "(mutex \<Rightarrow> rwMutex) \<Rightarrow> bool" where
  "exclusive mu = (\<forall>m. writerHeld (mu m) \<longrightarrow> readerCount (mu m) = 0)"

text \<open>
  Lock calls that are not nested: every acquisition is followed at once by its release.
  A goroutine running such calls is outside the locks, holds one for reading, holds one
  for writing, or has announced a \<^verbatim>\<open>Lock\<close>; the counters of every mutex account for
  the goroutines in these states.
\<close>

fun flat :: "lockEvent list \<Rightarrow> bool" where
  "flat [] = True"
| "flat [e] = False"
| "flat (e # e' # rest) =
     ((e = RLock (mutexOf e) \<and> e' = RUnlock (mutexOf e) \<or>
       e = Lock (mutexOf e) \<and> e' = Unlock (mutexOf e)) \<and> flat rest)"

definition outside :: "goroutine \<Rightarrow> bool" where
  "outside g \<longleftrightarrow> \<not> lockWait g \<and> flat (todo g)"

definition reading :: "mutex \<Rightarrow> goroutine \<Rightarrow> bool" where
  "reading m g \<longleftrightarrow>
     \<not> lockWait g \<and> todo g \<noteq> [] \<and> hd (todo g) = RUnlock m \<and> flat (tl (todo g))"

definition writing :: "mutex \<Rightarrow> goroutine \<Rightarrow> bool" where
  "writing m g \<longleftrightarrow>
     \<not> lockWait g \<and> todo g \<noteq> [] \<and> hd (todo g) = Unlock m \<and> flat (tl (todo g))"

definition waitingOn :: "mutex \<Rightarrow> goroutine \<Rightarrow> bool" where
  "waitingOn m g \<longleftrightarrow> lockWait g \<and> todo g \<noteq> [] \<and> hd (todo g) = Lock m \<and> flat (todo g)"

definition wellFormed :: "goroutine \<Rightarrow> bool" where
  "wellFormed g \<longleftrightarrow>
     outside g \<or> (\<exists>m. reading m g) \<or> (\<exists>m. writing m g) \<or> (\<exists>m. waitingOn m g)"

definition cnt :: "('a \<Rightarrow> bool) \<Rightarrow> 'a list \<Rightarrow> nat" where
  "cnt P xs = length (filter P xs)"

definition accounted :: "scheduling \<Rightarrow> bool" where
  "accounted c \<longleftrightarrow>
     (\<forall>g \<in> set (goroutines c). wellFormed g) \<and>
     (\<forall>m. readerCount (mutexes c m) = cnt (reading m) (goroutines c) \<and>
          writersWaiting (mutexes c m) = cnt (waitingOn m) (goroutines c) \<and>
          (if writerHeld (mutexes c m) then 1 else 0) = cnt (writing m) (goroutines c))"

section \<open>Invariants\<close>

lemma getRegMatch_None:
  "getRegMatch a h regs = None \<Longrightarrow> a \<notin> (\<lambda>p. api (h p)) ` set regs"
  by (induction regs) (auto split: if_splits)

lemma getRegMatch_Some:
  "getRegMatch a h regs = Some m \<Longrightarrow> m \<in> set regs \<and> api (h m) = a"
  by (induction regs) (auto split: if_splits)

lemma retainActive_set: "set (retainActive h clk regs) \<subseteq> set regs"
  by (induction regs arbitrary: clk) auto

lemma retainActive_distinct:
  "distinct (map f regs) \<Longrightarrow> distinct (map f (retainActive h clk regs))"
proof (induction regs arbitrary: clk)
  case Nil
  then show ?case by simp
next
  case (Cons p regs)
  have "f p \<notin> f ` set (retainActive h (advance 1 clk) regs)"
    using Cons.prems retainActive_set [of h "advance 1 clk" regs] by auto
  with Cons show ?case by simp
qed

lemma regInvD:
  assumes "regInv this" and "apiRegs this k = Some regs"
  shows "regs \<noteq> []" and "distinct (map (\<lambda>p. api (regHeap this p)) regs)"
    and "p \<in> set regs \<Longrightarrow> p < nextReg this"
    and "p \<in> set regs \<Longrightarrow> Name (api (regHeap this p)) = k"
  using assms unfolding regInv_def by blast+

lemma regInv_alloc:
  assumes inv: "regInv this"
    and regs: "regs = regsAt this (Name a)"
    and nomatch: "a \<notin> (\<lambda>p. api (regHeap this p)) ` set regs"
  shows "regInv (this\<lparr>regHeap := (regHeap this)(nextReg this := \<lparr>api = a, timeRegistered = now, lifeSpan = l\<rparr>),
                     nextReg := Suc (nextReg this),
                     apiRegs := (apiRegs this)(Name a \<mapsto> regs @ [nextReg this])\<rparr>)"
    (is "regInv ?this'")
proof -
  define q where "q = nextReg this"
  define this' where "this' = ?this'"
  define h' where "h' = regHeap this'"
  have hq: "api (h' q) = a" by (simp add: h'_def this'_def q_def)
  have hp: "p < q \<Longrightarrow> h' p = regHeap this p" for p by (simp add: h'_def this'_def q_def)
  have next': "nextReg this' = Suc q" by (simp add: this'_def q_def)
  have regs': "apiRegs this' = (apiRegs this)(Name a \<mapsto> regs @ [q])"
    by (simp add: this'_def q_def)
  have old: "apiRegs this k = Some rs \<Longrightarrow> p \<in> set rs \<Longrightarrow> p < q" for k rs p
    using regInvD(3) [OF inv] by (simp add: q_def)
  have regs_old: "p \<in> set regs \<Longrightarrow> p < q \<and> Name (api (regHeap this p)) = Name a" for p
    using regs regInvD(3,4) [OF inv, of "Name a"]
    by (auto simp: regsAt_def q_def split: option.splits)
  have regs_dist: "distinct (map (\<lambda>p. api (regHeap this p)) regs)"
    using regs regInvD(2) [OF inv, of "Name a"] by (auto simp: regsAt_def split: option.splits)
  have same: "map (\<lambda>p. api (h' p)) rs = map (\<lambda>p. api (regHeap this p)) rs"
    if "\<And>p. p \<in> set rs \<Longrightarrow> p < q" for rs
    using that by (intro map_cong) (auto simp: hp)
  have main: "rs \<noteq> [] \<and> distinct (map (\<lambda>p. api (h' p)) rs) \<and>
        (\<forall>p \<in> set rs. p < Suc q \<and> Name (api (h' p)) = k)"
    if k: "apiRegs this' k = Some rs" for k rs
  proof (cases "k = Name a")
    case True
    then have rs: "rs = regs @ [q]" using k by (simp add: regs')
    have m: "map (\<lambda>p. api (h' p)) regs = map (\<lambda>p. api (regHeap this p)) regs"
      using regs_old by (intro same) simp
    have d: "distinct (map (\<lambda>p. api (h' p)) rs)"
      using regs_dist nomatch by (simp add: rs m hq)
    have "p < Suc q \<and> Name (api (h' p)) = k" if "p \<in> set rs" for p
    proof (cases "p = q")
      case True
      then show ?thesis using hq \<open>k = Name a\<close> by simp
    next
      case False
      then have "p \<in> set regs" using that rs by simp
      then show ?thesis using regs_old [of p] hp [of p] \<open>k = Name a\<close> by simp
    qed
    with d rs show ?thesis by simp
  next
    case False
    then have krs: "apiRegs this k = Some rs" using k by (simp add: regs')
    have lt: "p < q" if "p \<in> set rs" for p using old [OF krs that] .
    have m: "map (\<lambda>p. api (h' p)) rs = map (\<lambda>p. api (regHeap this p)) rs"
      using lt by (intro same) simp
    have d: "distinct (map (\<lambda>p. api (h' p)) rs)"
      unfolding m using regInvD(2) [OF inv krs] .
    have "p < Suc q \<and> Name (api (h' p)) = k" if "p \<in> set rs" for p
      using lt [OF that] regInvD(4) [OF inv krs that] hp [of p] by simp
    then show ?thesis using regInvD(1) [OF inv krs] d by blast
  qed
  have "regInv this'"
    unfolding regInv_def next' h'_def [symmetric] using main by blast
  then show ?thesis by (simp only: this'_def)
qed

lemma regInv_refresh:
  assumes inv: "regInv this"
  shows "regInv (this\<lparr>regHeap := (regHeap this)(m := (regHeap this m)\<lparr>timeRegistered := now\<rparr>)\<rparr>)"
    (is "regInv ?this'")
proof -
  have eq: "api (regHeap ?this' p) = api (regHeap this p)" for p
    by simp
  have "apiRegs ?this' = apiRegs this" and "nextReg ?this' = nextReg this"
    by simp_all
  then show ?thesis using inv unfolding regInv_def eq by simp
qed

lemma regInv_updateApis: "regInv this \<Longrightarrow> regInv (updateApis a l now this)"
proof -
  assume inv: "regInv this"
  show ?thesis
  proof (cases "apiRegs this (Name a)")
    case None
    then have "regsAt this (Name a) = []" by (simp add: regsAt_def)
    from regInv_alloc [OF inv this [symmetric], of now l] None show ?thesis
      by (simp add: updateApis_def newRegistration_def)
  next
    case (Some regs)
    then have r: "regs = regsAt this (Name a)" by (simp add: regsAt_def)
    show ?thesis
    proof (cases "getRegMatch a (regHeap this) regs")
      case None
      from regInv_alloc [OF inv r getRegMatch_None [OF None], of now l] Some None show ?thesis
        by (simp add: updateApis_def newRegistration_def)
    next
      case (Some m)
      with \<open>apiRegs this (Name a) = Some regs\<close> regInv_refresh [OF inv, of m now] show ?thesis
        by (simp add: updateApis_def)
    qed
  qed
qed

lemma regInv_rebuildRegsForName:
  assumes inv: "regInv this"
  shows "regInv (rebuildRegsForName clk k this)"
proof (cases "retainActive (regHeap this) clk (regsAt this k) = []")
  case True
  then show ?thesis using inv by (simp add: rebuildRegsForName_def regInv_def)
next
  case False
  define new where "new = retainActive (regHeap this) clk (regsAt this k)"
  obtain regs where regs: "apiRegs this k = Some regs" "regsAt this k = regs"
    using False by (cases "apiRegs this k") (auto simp: regsAt_def)
  have sub: "set new \<subseteq> set regs"
    unfolding new_def regs(2) by (rule retainActive_set)
  have d: "distinct (map (\<lambda>p. api (regHeap this p)) new)"
    unfolding new_def regs(2) using regInvD(2) [OF inv regs(1)] by (rule retainActive_distinct)
  have "regInv (this\<lparr>apiRegs := (apiRegs this)(k \<mapsto> new)\<rparr>)"
    unfolding regInv_def
  proof (intro allI impI)
    fix k' rs
    assume a: "apiRegs (this\<lparr>apiRegs := (apiRegs this)(k \<mapsto> new)\<rparr>) k' = Some rs"
    show "rs \<noteq> [] \<and>
       distinct (map (\<lambda>p. api (regHeap (this\<lparr>apiRegs := (apiRegs this)(k \<mapsto> new)\<rparr>) p)) rs) \<and>
       (\<forall>p\<in>set rs. p < nextReg (this\<lparr>apiRegs := (apiRegs this)(k \<mapsto> new)\<rparr>) \<and>
           Name (api (regHeap (this\<lparr>apiRegs := (apiRegs this)(k \<mapsto> new)\<rparr>) p)) = k')"
    proof (cases "k' = k")
      case True
      then have "rs = new" using a by simp
      then show ?thesis
        using False d sub regInvD(3,4) [OF inv regs(1)] True by (auto simp: new_def)
    next
      case False
      then have "apiRegs this k' = Some rs" using a by simp
      then show ?thesis using regInvD [OF inv, of k' rs] by simp
    qed
  qed
  then show ?thesis using False by (simp add: rebuildRegsForName_def new_def)
qed

lemma regInv_sweepExpired: "regInv this \<Longrightarrow> regInv (sweepExpired clk es this)"
proof (induction es arbitrary: clk this)
  case Nil
  then show ?case by simp
next
  case (Cons e es)
  show ?case
    using Cons.IH [OF regInv_rebuildRegsForName [OF Cons.prems]]
    by (simp add: Let_def)
qed

lemma ownedRegs_rebuildRegsForName [simp]:
  "ownedRegs (rebuildRegsForName clk k this) = ownedRegs this"
  by (simp add: rebuildRegsForName_def Let_def)

lemma ownedRegs_updateApis [simp]: "ownedRegs (updateApis a l now this) = ownedRegs this"
  by (simp add: updateApis_def newRegistration_def split: option.splits)

lemma ownedRegs_sweepExpired [simp]: "ownedRegs (sweepExpired clk es this) = ownedRegs this"
  by (induction es arbitrary: clk this) (simp_all add: Let_def)

lemma ownedRegs_listenMutlicast [simp]:
  "ownedRegs (listenMutlicast dec rd now this) = ownedRegs this"
  by (simp add: listenMutlicast_def split: sum.splits prod.splits)

lemma regInv_listenMutlicast: "regInv this \<Longrightarrow> regInv (listenMutlicast dec rd now this)"
  by (simp add: listenMutlicast_def regInv_updateApis split: sum.splits prod.splits)

lemma RegisterApi_state:
  assumes "RegisterApi env this n v p = (err, this', evs)"
  shows "this' = this \<or>
         (n \<noteq> [] \<and> this' = this\<lparr>ownedRegs := (ownedRegs this)(n \<mapsto> \<lparr>name = n, version = v, port = p\<rparr>)\<rparr>)"
  using assms by (auto simp: RegisterApi_def split: if_splits option.splits prod.splits)

lemma regInv_RegisterApi:
  assumes "regInv this" and "RegisterApi env this n v p = (err, this', evs)"
  shows "regInv this'"
proof -
  have "apiRegs this' = apiRegs this" "regHeap this' = regHeap this" "nextReg this' = nextReg this"
    using RegisterApi_state [OF assms(2)] by auto
  then show ?thesis using assms(1) by (simp add: regInv_def)
qed

lemma ownedInv_RegisterApi:
  assumes "ownedInv this" and "RegisterApi env this n v p = (err, this', evs)"
  shows "ownedInv this'"
  using RegisterApi_state [OF assms(2)] assms(1)
  by (fastforce simp: ownedInv_def split: if_splits)

lemma reachable_inv: "reachable this \<Longrightarrow> regInv this \<and> ownedInv this"
proof (induction rule: reachable.induct)
  case init
  show ?case by (simp add: regInv_def ownedInv_def emptyRegistry_def)
next
  case (register this env n v p err this' evs)
  then show ?case using regInv_RegisterApi ownedInv_RegisterApi by blast
next
  case (listen this jsonDecode readFromUDP now)
  then show ?case by (simp add: regInv_listenMutlicast ownedInv_def)
next
  case (sweep this clk expiredApiRegs)
  then show ?case by (simp add: regInv_sweepExpired ownedInv_def)
qed

lemma reachable_updateApis: "reachable this \<Longrightarrow> reachable (updateApis a l now this)"
proof -
  assume r: "reachable this"
  have "listenMutlicast (\<lambda>_. Inr \<lparr>ApiName = Name a, ApiVersion = Version a, ApiPort = HostPort a, LifeSpan = l\<rparr>)
          (Inr ([], HostIP a)) now this = updateApis a l now this"
    by (cases a) (simp add: listenMutlicast_def)
  then show ?thesis using reachable.listen [OF r] by metis
qed

lemma cleanupExpiredRegs_reachable:
  "reachable this \<Longrightarrow> reachable (cleanupExpiredRegs ks clk this)"
  by (simp add: cleanupExpiredRegs_def Let_def reachable.sweep)

section \<open>The remote map after an announcement\<close>

lemma updateApis_cases:
  "updateApis a l now this =
     (case getRegMatch a (regHeap this) (regsAt this (Name a)) of
        Some m \<Rightarrow> this\<lparr>regHeap := (regHeap this)(m := (regHeap this m)\<lparr>timeRegistered := now\<rparr>)\<rparr>
      | None \<Rightarrow>
          this\<lparr>regHeap := (regHeap this)
                  (nextReg this := \<lparr>api = a, timeRegistered = now, lifeSpan = l\<rparr>),
               nextReg := Suc (nextReg this),
               apiRegs := (apiRegs this)(Name a \<mapsto> regsAt this (Name a) @ [nextReg this])\<rparr>)"
  by (simp add: updateApis_def newRegistration_def regsAt_def split: option.splits)

lemma regsAt_inv:
  assumes "regInv this" and "p \<in> set (regsAt this k)"
  shows "p < nextReg this" and "Name (api (regHeap this p)) = k"
proof -
  obtain regs where r: "apiRegs this k = Some regs" "p \<in> set regs"
    using assms(2) by (cases "apiRegs this k") (auto simp: regsAt_def)
  show "p < nextReg this" using regInvD(3) [OF assms(1) r] .
  show "Name (api (regHeap this p)) = k" using regInvD(4) [OF assms(1) r] .
qed

lemma regsAt_distinct:
  assumes "regInv this"
  shows "distinct (map (\<lambda>p. api (regHeap this p)) (regsAt this k))"
proof (cases "apiRegs this k")
  case None
  then show ?thesis by (simp add: regsAt_def)
next
  case (Some regs)
  then show ?thesis using regInvD(2) [OF assms Some] by (simp add: regsAt_def)
qed

lemma registrations_alloc:
  assumes inv: "regInv this"
  shows "registrations
           (this\<lparr>regHeap := (regHeap this)(nextReg this := r),
                 nextReg := Suc (nextReg this),
                 apiRegs := (apiRegs this)(n \<mapsto> regsAt this n @ [nextReg this])\<rparr>) k =
         (if k = n then registrations this k @ [r] else registrations this k)"
proof -
  have fresh: "map ((regHeap this)(nextReg this := r)) (regsAt this k') = map (regHeap this) (regsAt this k')"
    for k'
    using regsAt_inv(1) [OF inv] by (intro map_cong) auto
  show ?thesis
    by (simp add: registrations_def regsAt_def fresh [unfolded regsAt_def])
qed

lemma registrations_refresh:
  assumes inv: "regInv this"
    and m: "m \<in> set (regsAt this n)"
  shows "registrations
           (this\<lparr>regHeap := (regHeap this)(m := (regHeap this m)\<lparr>timeRegistered := now\<rparr>)\<rparr>) k =
         (if k = n
          then map (\<lambda>r. if api r = api (regHeap this m) then r\<lparr>timeRegistered := now\<rparr> else r)
                 (registrations this k)
          else registrations this k)"
proof (cases "k = n")
  case True
  have "api (regHeap this p) = api (regHeap this m) \<longleftrightarrow> p = m" if "p \<in> set (regsAt this n)" for p
    using regsAt_distinct [OF inv, of n] that m
    by (auto simp: distinct_map dest: inj_onD)
  then have "map ((regHeap this)(m := (regHeap this m)\<lparr>timeRegistered := now\<rparr>)) (regsAt this n) =
      map (\<lambda>p. if api (regHeap this p) = api (regHeap this m)
                then (regHeap this p)\<lparr>timeRegistered := now\<rparr> else regHeap this p) (regsAt this n)"
    by (intro map_cong) auto
  then show ?thesis using True
    by (simp add: registrations_def regsAt_def comp_def)
next
  case False
  have "m \<notin> set (regsAt this k)"
    using regsAt_inv(2) [OF inv, of m k] regsAt_inv(2) [OF inv m] False by auto
  then have "map ((regHeap this)(m := (regHeap this m)\<lparr>timeRegistered := now\<rparr>)) (regsAt this k) =
      map (regHeap this) (regsAt this k)"
    by (intro map_cong) auto
  then show ?thesis using False
    by (simp add: registrations_def regsAt_def)
qed

lemma getRegMatch_registrations:
  "getRegMatch a (regHeap this) (regsAt this n) = None \<longleftrightarrow>
     a \<notin> api ` set (registrations this n)"
proof
  assume "getRegMatch a (regHeap this) (regsAt this n) = None"
  from getRegMatch_None [OF this] show "a \<notin> api ` set (registrations this n)"
    by (auto simp: registrations_def)
next
  assume a: "a \<notin> api ` set (registrations this n)"
  show "getRegMatch a (regHeap this) (regsAt this n) = None"
  proof (cases "getRegMatch a (regHeap this) (regsAt this n)")
    case None
    then show ?thesis .
  next
    case (Some m)
    from getRegMatch_Some [OF this] a show ?thesis
      by (auto simp: registrations_def)
  qed
qed

lemma updateApis_registrations:
  assumes inv: "regInv this"
  shows "registrations (updateApis a l now this) k =
     (if k \<noteq> Name a then registrations this k
      else if a \<in> api ` set (registrations this k)
      then map (\<lambda>r. if api r = a then r\<lparr>timeRegistered := now\<rparr> else r) (registrations this k)
      else registrations this k @ [\<lparr>api = a, timeRegistered = now, lifeSpan = l\<rparr>])"
proof (cases "getRegMatch a (regHeap this) (regsAt this (Name a))")
  case None
  then have "a \<notin> api ` set (registrations this (Name a))"
    by (simp add: getRegMatch_registrations)
  then show ?thesis
    unfolding updateApis_cases None option.case registrations_alloc [OF inv]
    by auto
next
  case (Some m)
  from getRegMatch_Some [OF Some] have m: "m \<in> set (regsAt this (Name a))" "api (regHeap this m) = a"
    by simp_all
  have "a \<in> api ` set (registrations this (Name a))"
    using Some getRegMatch_registrations [of a this "Name a"] by simp
  then show ?thesis
    unfolding updateApis_cases Some option.case registrations_refresh [OF inv m(1)] m(2)
    by auto
qed

lemma filter_unique:
  assumes "distinct (map f xs)" and "x \<in> set xs"
  shows "filter (\<lambda>y. f y = f x) xs = [x]"
  using assms
proof (induction xs)
  case Nil
  then show ?case by simp
next
  case (Cons y ys)
  show ?case
  proof (cases "y = x")
    case True
    have "f x \<notin> f ` set ys" using Cons.prems(1) True by simp
    then have "\<forall>z \<in> set ys. f z \<noteq> f x" by (metis imageI)
    then have "filter (\<lambda>z. f z = f x) ys = []"
      by (simp add: filter_empty_conv)
    then show ?thesis using True by simp
  next
    case False
    then have "x \<in> set ys" using Cons.prems(2) by simp
    then have "f y \<noteq> f x" using Cons.prems(1) by auto
    then show ?thesis using Cons.IH Cons.prems(1) \<open>x \<in> set ys\<close> by simp
  qed
qed

lemma registrations_distinct:
  "regInv this \<Longrightarrow> distinct (map api (registrations this k))"
  using regsAt_distinct [of this k] by (simp add: registrations_def comp_def)

lemma registrations_emptyRegistry [simp]: "registrations emptyRegistry k = []"
  by (simp add: registrations_def regsAt_def emptyRegistry_def)

lemma refresh_api_image:
  "api ` set (map (\<lambda>r. if api r = a then r\<lparr>timeRegistered := now\<rparr> else r) rs) = api ` set rs"
  by (induction rs) auto

lemma updateApis_present:
  assumes "regInv this"
  shows "a \<in> api ` set (registrations (updateApis a l now this) (Name a))"
proof (cases "a \<in> api ` set (registrations this (Name a))")
  case True
  then have "registrations (updateApis a l now this) (Name a) =
      map (\<lambda>r. if api r = a then r\<lparr>timeRegistered := now\<rparr> else r) (registrations this (Name a))"
    by (simp add: updateApis_registrations [OF assms])
  then show ?thesis using True by (simp only: refresh_api_image)
next
  case False
  then show ?thesis
    unfolding updateApis_registrations [OF assms] by simp
qed

lemma filter_refresh:
  "filter (\<lambda>x. api x = a) (map (\<lambda>r. if api r = a then r\<lparr>timeRegistered := now\<rparr> else r) rs) =
   map (\<lambda>r. r\<lparr>timeRegistered := now\<rparr>) (filter (\<lambda>x. api x = a) rs)"
  by (induction rs) auto

lemma dom_updateApis:
  "dom (apiRegs (updateApis a l now this)) = insert (Name a) (dom (apiRegs this))"
proof (cases "getRegMatch a (regHeap this) (regsAt this (Name a))")
  case None
  then show ?thesis unfolding updateApis_cases by simp
next
  case (Some m)
  from getRegMatch_Some [OF Some] have "regsAt this (Name a) \<noteq> []" by auto
  then have "Name a \<in> dom (apiRegs this)"
    by (cases "apiRegs this (Name a)") (auto simp: regsAt_def)
  then show ?thesis unfolding updateApis_cases Some by auto
qed

lemma updateApis_stored:
  "\<exists>r \<in> set (registrations (updateApis a l now this) (Name a)).
      api r = a \<and> timeRegistered r = now \<and>
      (a \<notin> api ` set (registrations this (Name a)) \<longrightarrow> lifeSpan r = l)"
proof (cases "getRegMatch a (regHeap this) (regsAt this (Name a))")
  case None
  have "\<lparr>api = a, timeRegistered = now, lifeSpan = l\<rparr> \<in>
      set (registrations (updateApis a l now this) (Name a))"
    unfolding updateApis_cases None by (simp add: registrations_def regsAt_def)
  then show ?thesis by force
next
  case (Some m)
  from getRegMatch_Some [OF Some] have m: "m \<in> set (regsAt this (Name a))" "api (regHeap this m) = a"
    by simp_all
  have old: "a \<in> api ` set (registrations this (Name a))"
    using m by (force simp: registrations_def)
  define r where "r = (regHeap this m)\<lparr>timeRegistered := now\<rparr>"
  have "r \<in> set (registrations (updateApis a l now this) (Name a))"
    unfolding updateApis_cases Some r_def using m(1) by (force simp: registrations_def regsAt_def)
  moreover have "api r = a" "timeRegistered r = now" using m(2) by (simp_all add: r_def)
  ultimately show ?thesis using old by blast
qed

section \<open>The queries\<close>

lemma activeApis_filter:
  "activeApis h now regs = map api (filter (\<lambda>r. After (expiry r) now) (map h regs))"
  by (induction regs) auto

lemma GetApisByApiName_filter:
  "GetApisByApiName this now n =
     map api (filter (\<lambda>r. After (expiry r) now) (registrations this n))"
  by (simp add: GetApisByApiName_def activeApis_filter registrations_def)

lemma After_expiry: "After (expiry r) now \<longleftrightarrow> timeRegistered r + lifeSpan r > now"
  by (simp add: After_def expiry_def Add_def)

lemma GetAvailableApis_member:
  assumes "n \<in> set ks" and "\<And>i. x \<in> set (GetApisByApiName this (clk i) n)"
  shows "x \<in> set (GetAvailableApis this clk ks)"
  using assms
proof (induction ks arbitrary: clk)
  case Nil
  then show ?case by simp
next
  case (Cons k ks)
  show ?case
  proof (cases "k = n")
    case True
    then show ?thesis using Cons.prems(2) [of 0] by simp
  next
    case False
    then have "n \<in> set ks" using Cons.prems(1) by simp
    moreover have "x \<in> set (GetApisByApiName this (advance 1 clk i) n)" for i
      using Cons.prems(2) [of "i + 1"] by (simp add: advance_def)
    ultimately have "x \<in> set (GetAvailableApis this (advance 1 clk) ks)"
      by (rule Cons.IH)
    then show ?thesis by simp
  qed
qed

section \<open>The cleanup at one instant\<close>

lemma advance_const [simp]: "advance k (\<lambda>i. now) = (\<lambda>i. now)"
  by (simp add: advance_def)

lemma retainActive_const:
  "retainActive h (\<lambda>i. now) regs = filter (\<lambda>p. After (expiry (h p)) now) regs"
  by (induction regs) simp_all

lemma expiredOf_filter:
  "expiredOf h now regs = filter (\<lambda>p. Before (expiry (h p)) now) regs"
  by (induction regs) simp_all

lemma regHeap_rebuildRegsForName [simp]:
  "regHeap (rebuildRegsForName clk k this) = regHeap this"
  by (simp add: rebuildRegsForName_def Let_def)

lemma regsAt_rebuildRegsForName:
  "regsAt (rebuildRegsForName clk k this) k' =
     (if k' = k then retainActive (regHeap this) clk (regsAt this k) else regsAt this k')"
  by (simp add: rebuildRegsForName_def Let_def regsAt_def)

lemma regHeap_sweepExpired [simp]: "regHeap (sweepExpired clk es this) = regHeap this"
  by (induction es arbitrary: clk this) (simp_all add: Let_def)

lemma regsAt_sweepExpired_const:
  "regsAt (sweepExpired (\<lambda>i. now) es this) k =
     (if k \<in> (\<lambda>e. Name (api (regHeap this e))) ` set es
      then filter (\<lambda>p. After (expiry (regHeap this p)) now) (regsAt this k)
      else regsAt this k)"
proof (induction es arbitrary: this)
  case Nil
  show ?case by simp
next
  case (Cons e es)
  show ?case
    by (simp add: Let_def Cons.IH regsAt_rebuildRegsForName retainActive_const)
qed

lemma findExpiredApiRegs_names:
  assumes "regInv this"
  shows "(\<lambda>e. Name (api (regHeap this e))) ` set (findExpiredApiRegs this now ks) =
         {k \<in> set ks. \<exists>p \<in> set (regsAt this k). Before (expiry (regHeap this p)) now}"
proof (induction ks)
  case Nil
  show ?case by simp
next
  case (Cons k ks)
  have "(\<lambda>e. Name (api (regHeap this e))) ` set (expiredOf (regHeap this) now (regsAt this k)) =
      (if \<exists>p \<in> set (regsAt this k). Before (expiry (regHeap this p)) now then {k} else {})"
    using regsAt_inv(2) [OF assms, of _ k] by (auto simp: expiredOf_filter)
  then show ?case using Cons.IH by (auto simp: image_Un)
qed

lemma cleanupExpiredRegs_regsAt:
  assumes inv: "regInv this" and ks: "set ks = dom (apiRegs this)"
  shows "regsAt (cleanupExpiredRegs ks (\<lambda>i. now) this) k =
     (if \<exists>p \<in> set (regsAt this k). Before (expiry (regHeap this p)) now
      then filter (\<lambda>p. After (expiry (regHeap this p)) now) (regsAt this k)
      else regsAt this k)"
proof -
  have indom: "k \<in> set ks" if "p \<in> set (regsAt this k)" for p
    using that ks by (cases "apiRegs this k") (auto simp: regsAt_def)
  have names: "k \<in> (\<lambda>e. Name (api (regHeap this e))) ` set (findExpiredApiRegs this now ks) \<longleftrightarrow>
      (\<exists>p \<in> set (regsAt this k). Before (expiry (regHeap this p)) now)"
    unfolding findExpiredApiRegs_names [OF inv] using indom by auto
  show ?thesis
  proof (cases "findExpiredApiRegs this now ks = []")
    case True
    then have "\<not> (\<exists>p \<in> set (regsAt this k). Before (expiry (regHeap this p)) now)"
      using names by simp
    then show ?thesis using True by (simp add: cleanupExpiredRegs_def)
  next
    case False
    then show ?thesis
      using names by (simp add: cleanupExpiredRegs_def regsAt_sweepExpired_const)
  qed
qed

lemma cleanupExpiredRegs_sweep:
  assumes "reachable this" and "set ks = dom (apiRegs this)"
  shows "registrations (cleanupExpiredRegs ks (\<lambda>i. now) this) k =
     (if \<exists>r \<in> set (registrations this k). timeRegistered r + lifeSpan r < now
      then filter (\<lambda>r. now < timeRegistered r + lifeSpan r) (registrations this k)
      else registrations this k)"
    and "apiRegs (cleanupExpiredRegs ks (\<lambda>i. now) this) k = None \<longleftrightarrow>
         registrations (cleanupExpiredRegs ks (\<lambda>i. now) this) k = []"
proof -
  have inv: "regInv this" using reachable_inv [OF assms(1)] by simp
  have h: "regHeap (cleanupExpiredRegs ks (\<lambda>i. now) this) = regHeap this"
    by (simp add: cleanupExpiredRegs_def Let_def)
  show "registrations (cleanupExpiredRegs ks (\<lambda>i. now) this) k =
     (if \<exists>r \<in> set (registrations this k). timeRegistered r + lifeSpan r < now
      then filter (\<lambda>r. now < timeRegistered r + lifeSpan r) (registrations this k)
      else registrations this k)"
    unfolding registrations_def h cleanupExpiredRegs_regsAt [OF inv assms(2)]
    by (simp add: filter_map comp_def Before_def After_def expiry_def Add_def)
  have "regInv (cleanupExpiredRegs ks (\<lambda>i. now) this)"
    using reachable_inv [OF cleanupExpiredRegs_reachable [OF assms(1)]] by simp
  then show "apiRegs (cleanupExpiredRegs ks (\<lambda>i. now) this) k = None \<longleftrightarrow>
         registrations (cleanupExpiredRegs ks (\<lambda>i. now) this) k = []"
    by (cases "apiRegs (cleanupExpiredRegs ks (\<lambda>i. now) this) k")
      (auto simp: registrations_def regsAt_def dest: regInvD(1))
qed

section \<open>Evaluating the examples\<close>

lemma sendApiRegistration_okEnv:
  "sendApiRegistration okEnv n v p = (None, [Dialed, Wrote (replicate 64 0)])"
  by (simp add: sendApiRegistration_def okEnv_def RegistrationMessageSizeBytes_def)

lemma sendApiRegistration_downEnv:
  "sendApiRegistration downEnv n v p = (Some (netOpError ''network is unreachable''), [Dialed])"
  by (simp add: sendApiRegistration_def downEnv_def)

lemma RegisterApi_search:
  "RegisterApi okEnv emptyRegistry ''search'' ''1.0'' 8080 =
     (None, searchOwned, [Dialed, Wrote (replicate 64 0)])"
  by (simp add: RegisterApi_def ownsApi_def sendApiRegistration_okEnv searchOwned_def
      emptyRegistry_def)

lemma reachable_searchOwned: "reachable searchOwned"
  using reachable.register [OF reachable.init RegisterApi_search] .

lemma sendApiRegistration_dials: "hd (snd (sendApiRegistration env n v p)) = Dialed"
  by (simp add: sendApiRegistration_def split: option.splits sum.splits)


lemma regInv_emptyRegistry: "regInv emptyRegistry"
  using reachable_inv [OF reachable.init] by simp

lemma reachable_seenOnce: "reachable seenOnce"
  unfolding seenOnce_def using reachable.init by (rule reachable_updateApis)

lemma reachable_seenTwo: "reachable seenTwo"
  unfolding seenTwo_def using reachable_seenOnce by (rule reachable_updateApis)

lemma registrations_seenOnce:
  "registrations seenOnce k =
     (if k = ''search'' then [\<lparr>api = searchApi, timeRegistered = 5, lifeSpan = 90\<rparr>] else [])"
  unfolding seenOnce_def updateApis_registrations [OF regInv_emptyRegistry]
  by (simp add: searchApi_def)

lemma registrations_seenTwo:
  "registrations seenTwo k =
     (if k = ''search''
      then [\<lparr>api = searchApi, timeRegistered = 5, lifeSpan = 90\<rparr>,
            \<lparr>api = searchApi2, timeRegistered = 6, lifeSpan = 10\<rparr>]
      else [])"
  unfolding seenTwo_def updateApis_registrations [OF reachable_inv [OF reachable_seenOnce, THEN conjunct1]]
    registrations_seenOnce
  by (simp add: searchApi_def searchApi2_def)

lemma seenBoundary_eval:
  "seenBoundary =
     \<lparr>regHeap = (regHeap emptyRegistry)(0 := \<lparr>api = searchApi, timeRegistered = 0, lifeSpan = 10\<rparr>),
      nextReg = Suc 0, apiRegs = [''search'' \<mapsto> [0]], ownedRegs = Map.empty\<rparr>"
  by (simp add: seenBoundary_def updateApis_def newRegistration_def emptyRegistry_def searchApi_def)

section \<open>Registering a local service\<close>

text \<open>
  Claim C6. \<^verbatim>\<open>RegisterApi\<close> with an empty name fails at once with an error, whatever
  the version and the port, and so does \<^verbatim>\<open>RegisterApi\<close> with an empty version,
  whatever the name and the port. In both cases nothing happens on the network and the
  registry, with its owned map and its remote map, is the one before the call.
\<close>

theorem RegisterApi_empty_argument:
  "RegisterApi env this [] v p =
     (Some (errorsNew ''name was empty and name is a required parameter''), this, []) \<and>
   RegisterApi env this n [] p =
     (Some (errorsNew (if n = [] then ''name was empty and name is a required parameter''
                       else ''version was empty and version is a required parameter'')),
      this, [])"
  by (simp add: RegisterApi_def)

text \<open>
  Claim C4. For a first registration (a name that is not empty and not yet owned, with a
  version that passes the check), \<^verbatim>\<open>RegisterApi\<close> returns what the send returns.
  When the send succeeds the owned map gains the entry of this name, version and port
  and nothing else changes; when the send fails its error is returned and the registry
  is unchanged, so that the next \<^verbatim>\<open>RegisterApi\<close> of this name, with any version
  that passes the check and any port, sends again: it does on the network what a send
  does, which starts by opening a socket.
\<close>

theorem RegisterApi_first_time:
  assumes "n \<noteq> []" and "v \<noteq> []" and "ownedRegs this n = None" and "v' \<noteq> []"
  shows "RegisterApi env this n v p =
           (case sendApiRegistration env n v p of
              (None, evs) \<Rightarrow>
                (None,
                 this\<lparr>ownedRegs := (ownedRegs this)(n \<mapsto> \<lparr>name = n, version = v, port = p\<rparr>)\<rparr>,
                 evs)
            | (Some err, evs) \<Rightarrow> (Some err, this, evs)) \<and>
         (fst (sendApiRegistration env n v p) = None \<or>
          fst (snd (RegisterApi env this n v p)) = this \<and>
          snd (snd (RegisterApi env' (fst (snd (RegisterApi env this n v p))) n v' p')) =
            snd (sendApiRegistration env' n v' p') \<and>
          hd (snd (snd (RegisterApi env' (fst (snd (RegisterApi env this n v p))) n v' p'))) =
            Dialed)"
proof -
  have first: "RegisterApi env this n w q =
           (case sendApiRegistration env n w q of
              (None, evs) \<Rightarrow>
                (None,
                 this\<lparr>ownedRegs := (ownedRegs this)(n \<mapsto> \<lparr>name = n, version = w, port = q\<rparr>)\<rparr>,
                 evs)
            | (Some err, evs) \<Rightarrow> (Some err, this, evs))" if "w \<noteq> []" for env w q
    using assms(1,3) that by (simp add: RegisterApi_def ownsApi_def)
  have again: "snd (snd (RegisterApi env' this n v' p')) = snd (sendApiRegistration env' n v' p')"
    unfolding first [OF assms(4)] by (simp split: prod.splits option.splits)
  obtain e evs where s: "sendApiRegistration env n v p = (e, evs)"
    by (cases "sendApiRegistration env n v p")
  show ?thesis
  proof (cases e)
    case None
    then show ?thesis using first [OF assms(2)] s by simp
  next
    case (Some err)
    then have "fst (snd (RegisterApi env this n v p)) = this"
      unfolding first [OF assms(2)] s by simp
    then show ?thesis
      using first [OF assms(2), of env p] again sendApiRegistration_dials [of env' n v' p']
      by simp
  qed
qed

theorem RegisterApi_first_time_witness:
  "''search'' \<noteq> [] \<and> ''1.0'' \<noteq> [] \<and> ownedRegs emptyRegistry ''search'' = None \<and>
   ''1.1'' \<noteq> [] \<and>
   RegisterApi okEnv emptyRegistry ''search'' ''1.0'' 8080 =
     (None, searchOwned, [Dialed, Wrote (replicate 64 0)]) \<and>
   RegisterApi downEnv emptyRegistry ''search'' ''1.0'' 8080 =
     (Some (netOpError ''network is unreachable''), emptyRegistry, [Dialed]) \<and>
   snd (snd (RegisterApi okEnv
     (fst (snd (RegisterApi downEnv emptyRegistry ''search'' ''1.0'' 8080))) ''search'' ''1.1'' 8081)) =
     [Dialed, Wrote (replicate 64 0)]"
proof -
  have h: "''search'' \<noteq> []" "''1.0'' \<noteq> []" "ownedRegs emptyRegistry ''search'' = None"
    "''1.1'' \<noteq> []"
    by (simp_all add: emptyRegistry_def)
  have s: "emptyRegistry\<lparr>ownedRegs := (ownedRegs emptyRegistry)
      (''search'' \<mapsto> \<lparr>name = ''search'', version = ''1.0'', port = 8080\<rparr>)\<rparr> = searchOwned"
    by (simp add: searchOwned_def emptyRegistry_def)
  show ?thesis
    using h RegisterApi_first_time [OF h, of okEnv 8080 okEnv 8081]
      RegisterApi_first_time [OF h, of downEnv 8080 okEnv 8081]
    by (auto simp add: sendApiRegistration_okEnv sendApiRegistration_downEnv s)
qed

text \<open>
  Claim C5. In a reachable registry, \<^verbatim>\<open>RegisterApi\<close> of a name that is already in
  the owned map, with any non-empty version and any port, returns success, does nothing
  on the network and leaves the registry unchanged. The owned map has one entry for a
  name, which carries that name, and the entry registered first stays, whatever version
  the second call brings.
\<close>

theorem RegisterApi_already_owned:
  assumes "reachable this" and "ownedRegs this n = Some oa" and "v \<noteq> []"
  shows "RegisterApi env this n v p = (None, this, []) \<and> name oa = n \<and>
         ownedRegs (fst (snd (RegisterApi env this n v p))) n = Some oa"
proof -
  have "ownedInv this" using reachable_inv [OF assms(1)] by simp
  then have n: "n \<noteq> []" "name oa = n" using assms(2) by (auto simp: ownedInv_def)
  then have "RegisterApi env this n v p = (None, this, [])"
    using assms(2,3) by (simp add: RegisterApi_def ownsApi_def)
  then show ?thesis using n assms(2) by simp
qed

theorem RegisterApi_already_owned_witness:
  "reachable searchOwned \<and>
   ownedRegs searchOwned ''search'' = Some \<lparr>name = ''search'', version = ''1.0'', port = 8080\<rparr> \<and>
   ''2.0'' \<noteq> [] \<and>
   RegisterApi okEnv searchOwned ''search'' ''2.0'' 9090 = (None, searchOwned, []) \<and>
   version (the (ownedRegs (fst (snd (RegisterApi okEnv searchOwned ''search'' ''2.0'' 9090)))
      ''search'')) = ''1.0''"
proof -
  have o: "ownedRegs searchOwned ''search'' =
      Some \<lparr>name = ''search'', version = ''1.0'', port = 8080\<rparr>"
    by (simp add: searchOwned_def)
  have v: "''2.0'' \<noteq> []" by simp
  show ?thesis
    using reachable_searchOwned o
      RegisterApi_already_owned [OF reachable_searchOwned o v, of okEnv 9090]
    by simp
qed

section \<open>Sending an announcement\<close>

text \<open>
  Claim C7, amended. When the encoded announcement is longer than 1400 bytes, the send
  returns an error and writes nothing to the socket: the only network event is the
  opening of the socket. The error is the one of \<^verbatim>\<open>net.DialUDP\<close> when the socket
  cannot be opened, and otherwise the size error, whose text holds the name and the
  version.
\<close>

theorem sendApiRegistration_too_large:
  assumes "jsonEncode env \<lparr>ApiName = n, ApiVersion = v, ApiPort = p,
             LifeSpan = RegistrationLifeSpan\<rparr> = Inr dataOut"
    and "length dataOut > 1400"
  shows "(\<exists>err. fst (sendApiRegistration env n v p) = Some err) \<and>
         snd (sendApiRegistration env n v p) = [Dialed] \<and>
         fst (sendApiRegistration env n v p) =
           (case dialUDP env of
              Some err \<Rightarrow> Some err
            | None \<Rightarrow> Some (errorsNew
                (''Message size for'' @ n @ v @ ''exceeds max length of1400bytes'')))"
  using assms
  by (simp add: sendApiRegistration_def RegistrationMessageSizeBytes_def split: option.splits)

theorem sendApiRegistration_too_large_witness:
  "jsonEncode bigEnv \<lparr>ApiName = ''search'', ApiVersion = ''1.0'', ApiPort = 8080,
      LifeSpan = RegistrationLifeSpan\<rparr> = Inr (replicate 1401 0) \<and>
   length (replicate 1401 (0 :: 8 word)) > 1400 \<and> dialUDP bigEnv = None \<and>
   sendApiRegistration bigEnv ''search'' ''1.0'' 8080 =
     (Some (errorsNew ''Message size forsearch1.0exceeds max length of1400bytes''), [Dialed])"
proof -
  have e: "jsonEncode bigEnv \<lparr>ApiName = ''search'', ApiVersion = ''1.0'', ApiPort = 8080,
      LifeSpan = RegistrationLifeSpan\<rparr> = Inr (replicate 1401 0)"
    by (simp add: bigEnv_def)
  have l: "length (replicate 1401 (0 :: 8 word)) > 1400" by simp
  have d: "dialUDP bigEnv = None" by (simp add: bigEnv_def)
  show ?thesis
    using e l d sendApiRegistration_too_large [OF e l]
    by (simp add: prod_eq_iff)
qed

text \<open>
  The claim as first stated, that the error always names the name and the version, fails
  when the socket cannot be opened: the send returns the error of the network.
\<close>

theorem sendApiRegistration_too_large_counterexample:
  "jsonEncode downEnv \<lparr>ApiName = ''search'', ApiVersion = ''1.0'', ApiPort = 8080,
      LifeSpan = RegistrationLifeSpan\<rparr> = Inr (replicate 1401 0) \<and>
   length (replicate 1401 (0 :: 8 word)) > 1400 \<and>
   fst (sendApiRegistration downEnv ''search'' ''1.0'' 8080) =
     Some (netOpError ''network is unreachable'') \<and>
   fst (sendApiRegistration downEnv ''search'' ''1.0'' 8080) \<noteq>
     Some (errorsNew (''Message size for'' @ ''search'' @ ''1.0'' @
       ''exceeds max length of'' @ ''1400'' @ ''bytes''))"
  by (simp add: sendApiRegistration_downEnv) (simp add: downEnv_def)

section \<open>Announcements received from the network\<close>

text \<open>
  Claim C1. In a reachable registry, an announcement changes only the registrations of
  its own name. If one of them has the Api of the announcement (the same name, version,
  host address and port), that registration gets the time of arrival as its timestamp
  and the sequence is otherwise unchanged; if none has, a new registration with the
  time of arrival and the announced lifespan is appended. So after two announcements of
  the same Api, exactly one registration of the name has this Api, and its timestamp is
  the time of the second arrival; and no name ever holds two registrations of one Api.
\<close>

theorem updateApis_upsert:
  assumes "reachable this"
  shows "registrations (updateApis a l now this) k =
     (if k \<noteq> Name a then registrations this k
      else if a \<in> api ` set (registrations this k)
      then map (\<lambda>r. if api r = a then r\<lparr>timeRegistered := now\<rparr> else r) (registrations this k)
      else registrations this k @ [\<lparr>api = a, timeRegistered = now, lifeSpan = l\<rparr>]) \<and>
    (\<exists>r. filter (\<lambda>x. api x = a)
            (registrations (updateApis a l2 t2 (updateApis a l1 t1 this)) (Name a)) = [r] \<and>
         timeRegistered r = t2) \<and>
    distinct (map api (registrations this k))"
proof -
  have inv: "regInv this" using reachable_inv [OF assms] by simp
  define this1 where "this1 = updateApis a l1 t1 this"
  have inv1: "regInv this1" unfolding this1_def using inv by (rule regInv_updateApis)
  have present: "a \<in> api ` set (registrations this1 (Name a))"
    unfolding this1_def using inv by (rule updateApis_present)
  then obtain x where x: "x \<in> set (registrations this1 (Name a))" "api x = a" by auto
  have one: "filter (\<lambda>y. api y = a) (registrations this1 (Name a)) = [x]"
    using filter_unique [OF registrations_distinct [OF inv1] x(1)] x(2) by simp
  have "registrations (updateApis a l2 t2 this1) (Name a) =
      map (\<lambda>r. if api r = a then r\<lparr>timeRegistered := t2\<rparr> else r) (registrations this1 (Name a))"
    using present by (simp add: updateApis_registrations [OF inv1])
  then have "filter (\<lambda>y. api y = a) (registrations (updateApis a l2 t2 this1) (Name a)) =
      [x\<lparr>timeRegistered := t2\<rparr>]"
    by (simp only: filter_refresh one list.map)
  then have two: "\<exists>r. filter (\<lambda>x. api x = a)
            (registrations (updateApis a l2 t2 (updateApis a l1 t1 this)) (Name a)) = [r] \<and>
         timeRegistered r = t2"
    unfolding this1_def by simp
  show ?thesis
    using updateApis_registrations [OF inv, of a l now k] two registrations_distinct [OF inv, of k]
    by blast
qed

theorem updateApis_upsert_witness:
  "reachable emptyRegistry \<and>
   registrations (updateApis searchApi 90 5 emptyRegistry) ''search'' =
     [\<lparr>api = searchApi, timeRegistered = 5, lifeSpan = 90\<rparr>] \<and>
   registrations (updateApis searchApi 30 7 (updateApis searchApi 90 5 emptyRegistry)) ''search'' =
     [\<lparr>api = searchApi, timeRegistered = 7, lifeSpan = 90\<rparr>]"
proof -
  have n: "Name searchApi = ''search''" by (simp add: searchApi_def)
  have r1: "reachable (updateApis searchApi 90 5 emptyRegistry)"
    using reachable.init by (rule reachable_updateApis)
  have first: "registrations (updateApis searchApi 90 5 emptyRegistry) ''search'' =
     [\<lparr>api = searchApi, timeRegistered = 5, lifeSpan = 90\<rparr>]"
    using updateApis_upsert [OF reachable.init, of searchApi 90 5 "''search''"]
    by (simp add: n)
  have "registrations (updateApis searchApi 30 7 (updateApis searchApi 90 5 emptyRegistry)) ''search'' =
     [\<lparr>api = searchApi, timeRegistered = 7, lifeSpan = 90\<rparr>]"
    using updateApis_upsert [OF r1, of searchApi 30 7 "''search''"]
    by (simp add: n first)
  with first reachable.init show ?thesis by simp
qed

text \<open>
  Claim C9. In a reachable registry that holds a registration \<open>r\<close> of the announced
  Api, the announcement writes one object of the store, the one of \<open>r\<close>, and sets
  only its timestamp. The lifespans and the Apis of all registrations of all names are
  the ones before, whatever lifespan the announcement carries; the two maps, the
  registrations of the other names and the other registrations of the name are unchanged.
\<close>

theorem updateApis_refresh_frame:
  assumes "reachable this" and "r \<in> set (registrations this (Name a))" and "api r = a"
  shows "registrations (updateApis a l now this) k =
           (if k = Name a
            then map (\<lambda>x. if x = r then r\<lparr>timeRegistered := now\<rparr> else x) (registrations this k)
            else registrations this k) \<and>
         map lifeSpan (registrations (updateApis a l now this) k) =
           map lifeSpan (registrations this k) \<and>
         map api (registrations (updateApis a l now this) k) = map api (registrations this k) \<and>
         (\<exists>m. m \<in> set (regsAt this (Name a)) \<and> regHeap this m = r \<and>
            updateApis a l now this =
              this\<lparr>regHeap := (regHeap this)(m := r\<lparr>timeRegistered := now\<rparr>)\<rparr>)"
proof -
  have inv: "regInv this" using reachable_inv [OF assms(1)] by simp
  have present: "a \<in> api ` set (registrations this (Name a))"
    using assms(2,3) by auto
  have uniq: "api x = a \<longleftrightarrow> x = r" if "x \<in> set (registrations this (Name a))" for x
    using registrations_distinct [OF inv, of "Name a"] that assms(2,3)
    by (auto simp: distinct_map dest: inj_onD)
  have view: "registrations (updateApis a l now this) k =
           (if k = Name a
            then map (\<lambda>x. if x = r then r\<lparr>timeRegistered := now\<rparr> else x) (registrations this k)
            else registrations this k)"
  proof (cases "k = Name a")
    case True
    have "map (\<lambda>x. if api x = a then x\<lparr>timeRegistered := now\<rparr> else x) (registrations this (Name a)) =
        map (\<lambda>x. if x = r then r\<lparr>timeRegistered := now\<rparr> else x) (registrations this (Name a))"
      using uniq by (intro map_cong) auto
    then show ?thesis using True present by (simp add: updateApis_registrations [OF inv])
  next
    case False
    then show ?thesis by (simp add: updateApis_registrations [OF inv])
  qed
  have ls: "map lifeSpan (registrations (updateApis a l now this) k) =
           map lifeSpan (registrations this k)"
    unfolding view by (simp add: comp_def if_distrib [of lifeSpan] cong: if_cong)
  have ap: "map api (registrations (updateApis a l now this) k) = map api (registrations this k)"
    unfolding view by (simp add: comp_def if_distrib [of api] cong: if_cong)
  obtain m where m: "getRegMatch a (regHeap this) (regsAt this (Name a)) = Some m"
    using present getRegMatch_registrations [of a this "Name a"] by (cases "getRegMatch a (regHeap this) (regsAt this (Name a))") auto
  from getRegMatch_Some [OF m] have min: "m \<in> set (regsAt this (Name a))" "api (regHeap this m) = a"
    by simp_all
  have "regHeap this m \<in> set (registrations this (Name a))"
    using min(1) by (simp add: registrations_def)
  then have hm: "regHeap this m = r" using uniq min(2) by blast
  have "updateApis a l now this = this\<lparr>regHeap := (regHeap this)(m := r\<lparr>timeRegistered := now\<rparr>)\<rparr>"
    unfolding updateApis_cases m by (simp add: hm)
  with min(1) hm have "\<exists>m. m \<in> set (regsAt this (Name a)) \<and> regHeap this m = r \<and>
            updateApis a l now this =
              this\<lparr>regHeap := (regHeap this)(m := r\<lparr>timeRegistered := now\<rparr>)\<rparr>"
    by blast
  with view ls ap show ?thesis by blast
qed

theorem updateApis_refresh_frame_witness:
  "reachable seenOnce \<and>
   \<lparr>api = searchApi, timeRegistered = 5, lifeSpan = 90\<rparr>
     \<in> set (registrations seenOnce (Name searchApi)) \<and>
   api \<lparr>api = searchApi, timeRegistered = 5, lifeSpan = 90\<rparr> = searchApi \<and>
   registrations (updateApis searchApi 30 7 seenOnce) ''search'' =
     [\<lparr>api = searchApi, timeRegistered = 7, lifeSpan = 90\<rparr>] \<and>
   map lifeSpan (registrations (updateApis searchApi 30 7 seenOnce) ''search'') = [90]"
proof -
  have n: "Name searchApi = ''search''" by (simp add: searchApi_def)
  have r: "\<lparr>api = searchApi, timeRegistered = 5, lifeSpan = 90\<rparr>
     \<in> set (registrations seenOnce (Name searchApi))"
    by (simp add: registrations_seenOnce n)
  have a: "api \<lparr>api = searchApi, timeRegistered = 5, lifeSpan = 90\<rparr> = searchApi" by simp
  show ?thesis
    using reachable_seenOnce r updateApis_refresh_frame [OF reachable_seenOnce r a, of 30 7 "''search''"]
    by (simp add: registrations_seenOnce n)
qed

text \<open>
  Claim C10. The listener checks no field of a decoded message. Whatever the name, the
  version and the port of a datagram that decodes, an empty name, an empty version and a
  port below 1 included, the registry afterwards holds under that name a registration
  of the decoded Api with the sender's address, with the time of arrival as its
  timestamp, and with the lifespan of the message when the Api was not yet registered.
  As long as this registration is active, \<^verbatim>\<open>GetApisByApiName\<close> of the name returns
  the Api, and so does \<^verbatim>\<open>GetAvailableApis\<close>, in whatever order it ranges over the
  names.
\<close>

theorem listenMutlicast_no_validation:
  assumes "jsonDecode datagram = Inr message"
  shows "\<exists>r \<in> set (registrations (listenMutlicast jsonDecode (Inr (datagram, ip)) now this)
                    (ApiName message)).
           api r = \<lparr>Name = ApiName message, Version = ApiVersion message, HostIP = ip,
                     HostPort = ApiPort message\<rparr> \<and>
           timeRegistered r = now \<and>
           (api r \<notin> api ` set (registrations this (ApiName message)) \<longrightarrow>
              lifeSpan r = LifeSpan message) \<and>
           (\<forall>q. q < now + lifeSpan r \<longrightarrow>
              api r \<in> set (GetApisByApiName
                (listenMutlicast jsonDecode (Inr (datagram, ip)) now this) q (ApiName message))) \<and>
           (\<forall>ks clk.
              set ks = dom (apiRegs (listenMutlicast jsonDecode (Inr (datagram, ip)) now this)) \<and>
              (\<forall>i. clk i < now + lifeSpan r) \<longrightarrow>
              api r \<in> set (GetAvailableApis
                (listenMutlicast jsonDecode (Inr (datagram, ip)) now this) clk ks))"
proof -
  define a where "a = \<lparr>Name = ApiName message, Version = ApiVersion message, HostIP = ip,
                     HostPort = ApiPort message\<rparr>"
  define this' where "this' = listenMutlicast jsonDecode (Inr (datagram, ip)) now this"
  have n: "Name a = ApiName message" by (simp add: a_def)
  have step: "this' = updateApis a (LifeSpan message) now this"
    using assms by (simp add: this'_def listenMutlicast_def a_def)
  obtain r where r: "r \<in> set (registrations this' (ApiName message))" "api r = a"
      "timeRegistered r = now"
      "a \<notin> api ` set (registrations this (ApiName message)) \<longrightarrow> lifeSpan r = LifeSpan message"
    using updateApis_stored [of a "LifeSpan message" now this] unfolding step n by blast
  have active: "a \<in> set (GetApisByApiName this' q (ApiName message))" if "q < now + lifeSpan r" for q
  proof -
    have "After (expiry r) q" using that r(3) by (simp add: After_expiry)
    then show ?thesis using r(1,2) unfolding GetApisByApiName_filter by force
  qed
  have "a \<in> set (GetAvailableApis this' clk ks)"
    if "set ks = dom (apiRegs this')" and "\<And>i. clk i < now + lifeSpan r" for ks clk
  proof -
    have "ApiName message \<in> set ks"
      using that(1) dom_updateApis [of a "LifeSpan message" now this] by (simp add: step n)
    then show ?thesis using active that(2) by (intro GetAvailableApis_member) auto
  qed
  then show ?thesis
    unfolding this'_def [symmetric] a_def [symmetric] using r active by blast
qed

theorem listenMutlicast_no_validation_witness:
  "(\<lambda>d. Inr namelessMessage) [] = (Inr namelessMessage :: error + apiRegisterMessageJSON) \<and>
   registrations (listenMutlicast (\<lambda>d. Inr namelessMessage) (Inr ([], ''10.0.0.9'')) 5 emptyRegistry) [] =
     [\<lparr>api = \<lparr>Name = [], Version = [], HostIP = ''10.0.0.9'', HostPort = - 1\<rparr>,
       timeRegistered = 5, lifeSpan = 90\<rparr>] \<and>
   \<lparr>Name = [], Version = [], HostIP = ''10.0.0.9'', HostPort = - 1\<rparr> \<in>
     set (GetApisByApiName
       (listenMutlicast (\<lambda>d. Inr namelessMessage) (Inr ([], ''10.0.0.9'')) 5 emptyRegistry) 50 []) \<and>
   \<lparr>Name = [], Version = [], HostIP = ''10.0.0.9'', HostPort = - 1\<rparr> \<in>
     set (GetAvailableApis
       (listenMutlicast (\<lambda>d. Inr namelessMessage) (Inr ([], ''10.0.0.9'')) 5 emptyRegistry)
       (\<lambda>i. 50) [[]])"
proof -
  define this' where
    "this' = listenMutlicast (\<lambda>d. Inr namelessMessage) (Inr ([], ''10.0.0.9'')) 5 emptyRegistry"
  define a where "a = \<lparr>Name = [], Version = [], HostIP = ''10.0.0.9'', HostPort = - 1\<rparr>"
  have d: "(\<lambda>d. Inr namelessMessage) [] = (Inr namelessMessage :: error + apiRegisterMessageJSON)"
    by simp
  have step: "this' = updateApis a 90 5 emptyRegistry"
    by (simp add: this'_def listenMutlicast_def namelessMessage_def a_def)
  have regs: "registrations this' [] = [\<lparr>api = a, timeRegistered = 5, lifeSpan = 90\<rparr>]"
    unfolding step updateApis_registrations [OF regInv_emptyRegistry] by (simp add: a_def)
  have dom: "set [[]] = dom (apiRegs this')"
    unfolding step dom_updateApis by (simp add: a_def emptyRegistry_def)
  have m: "ApiName namelessMessage = []" "ApiVersion namelessMessage = []"
    "ApiPort namelessMessage = - 1" "LifeSpan namelessMessage = 90"
    by (simp_all add: namelessMessage_def)
  from listenMutlicast_no_validation [where jsonDecode = "\<lambda>d. Inr namelessMessage"
      and datagram = "[]" and message = namelessMessage and ip = "''10.0.0.9''" and now = 5
      and this = emptyRegistry, OF d]
  have "(\<forall>q. q < 5 + 90 \<longrightarrow> a \<in> set (GetApisByApiName this' q [])) \<and>
        (\<forall>ks clk. set ks = dom (apiRegs this') \<and> (\<forall>i. clk i < 5 + 90) \<longrightarrow>
           a \<in> set (GetAvailableApis this' clk ks))"
    unfolding this'_def [symmetric] m a_def [symmetric] regs by simp
  then have "a \<in> set (GetApisByApiName this' 50 [])"
    and "a \<in> set (GetAvailableApis this' (\<lambda>i. 50) [[]])"
    using dom by simp_all
  then show ?thesis
    using regs unfolding this'_def a_def by simp
qed

section \<open>Querying the remote map\<close>

text \<open>
  Claim C2. \<^verbatim>\<open>GetApisByApiName\<close> returns the Apis of exactly those registrations
  stored under the name whose timestamp plus lifespan is later than the time of the
  query, in the order of the stored sequence; it returns the empty list when the name is
  absent and when no registration of the name is active. It depends on the stored
  registrations and the time only, so that an expired registration that is still stored
  is not returned. The stored sequence is in the order of insertion: the Api of a new
  registration comes after the ones returned before. The query is a function of the
  registry and returns no registry: it writes nothing.
\<close>

theorem GetApisByApiName_active:
  "GetApisByApiName this now n =
     map api (filter (\<lambda>r. timeRegistered r + lifeSpan r > now) (registrations this n)) \<and>
   (apiRegs this n = None \<longrightarrow> GetApisByApiName this now n = []) \<and>
   ((\<forall>r \<in> set (registrations this n). \<not> timeRegistered r + lifeSpan r > now) \<longrightarrow>
      GetApisByApiName this now n = []) \<and>
   (reachable this \<and> a \<notin> api ` set (registrations this (Name a)) \<longrightarrow>
      GetApisByApiName (updateApis a l t this) now (Name a) =
        GetApisByApiName this now (Name a) @ (if t + l > now then [a] else []))"
proof -
  have eq: "GetApisByApiName this now n =
      map api (filter (\<lambda>r. timeRegistered r + lifeSpan r > now) (registrations this n))" for this n
    by (simp add: GetApisByApiName_filter After_expiry)
  have absent: "GetApisByApiName this now n = []" if "apiRegs this n = None"
    using that by (simp add: eq registrations_def regsAt_def)
  have expired: "GetApisByApiName this now n = []"
    if "\<forall>r \<in> set (registrations this n). \<not> timeRegistered r + lifeSpan r > now"
    using that by (simp add: eq filter_empty_conv)
  have order: "GetApisByApiName (updateApis a l t this) now (Name a) =
        GetApisByApiName this now (Name a) @ (if t + l > now then [a] else [])"
    if "reachable this" and "a \<notin> api ` set (registrations this (Name a))"
  proof -
    have "regInv this" using reachable_inv [OF that(1)] by simp
    then show ?thesis using that(2) by (simp add: eq updateApis_registrations)
  qed
  show ?thesis using eq absent expired order by blast
qed

theorem GetApisByApiName_active_witness:
  "apiRegs seenTwo ''other'' = None \<and> GetApisByApiName seenTwo 10 ''other'' = [] \<and>
   registrations seenTwo ''search'' =
     [\<lparr>api = searchApi, timeRegistered = 5, lifeSpan = 90\<rparr>,
      \<lparr>api = searchApi2, timeRegistered = 6, lifeSpan = 10\<rparr>] \<and>
   GetApisByApiName seenTwo 10 ''search'' = [searchApi, searchApi2] \<and>
   GetApisByApiName seenTwo 16 ''search'' = [searchApi] \<and>
   GetApisByApiName seenTwo 95 ''search'' = [] \<and>
   reachable seenOnce \<and> searchApi2 \<notin> api ` set (registrations seenOnce (Name searchApi2)) \<and>
   GetApisByApiName (updateApis searchApi2 10 6 seenOnce) 10 (Name searchApi2) =
     GetApisByApiName seenOnce 10 (Name searchApi2) @ [searchApi2]"
proof -
  have other: "apiRegs seenTwo ''other'' = None"
  proof -
    have "''other'' \<notin> dom (apiRegs seenTwo)"
      unfolding seenTwo_def seenOnce_def dom_updateApis
      by (simp add: searchApi_def searchApi2_def emptyRegistry_def)
    then show ?thesis by auto
  qed
  have new: "searchApi2 \<notin> api ` set (registrations seenOnce (Name searchApi2))"
    by (simp add: registrations_seenOnce searchApi_def searchApi2_def)
  show ?thesis
    using other new reachable_seenOnce
      GetApisByApiName_active [of seenTwo 10 "''other''" searchApi2 10 6]
      GetApisByApiName_active [of seenTwo 10 "''search''" searchApi2 10 6]
      GetApisByApiName_active [of seenTwo 16 "''search''" searchApi2 10 6]
      GetApisByApiName_active [of seenTwo 95 "''search''" searchApi2 10 6]
      GetApisByApiName_active [of seenOnce 10 "''search''" searchApi2 10 6]
    by (simp add: registrations_seenTwo registrations_seenOnce)
qed

section \<open>The cleanup at the instant of expiry\<close>

text \<open>
  Claim C3 says that after a cleanup at time \<open>now\<close> every stored registration is
  active at \<open>now\<close>. \<^verbatim>\<open>findExpiredApiRegs\<close> looks for registrations whose expiry is
  before \<open>now\<close>, while a registration is active when its expiry is after \<open>now\<close>. A
  registration that expires exactly at \<open>now\<close> is neither: when it is the only one of
  its name, the cleanup finds nothing and leaves it in the map, although the query at
  the same instant does not return it.
\<close>

theorem cleanupExpiredRegs_boundary:
  "set [''search''] = dom (apiRegs seenBoundary) \<and>
   registrations seenBoundary ''search'' =
     [\<lparr>api = searchApi, timeRegistered = 0, lifeSpan = 10\<rparr>] \<and>
   findExpiredApiRegs seenBoundary 10 [''search''] = [] \<and>
   cleanupExpiredRegs [''search''] (\<lambda>i. 10) seenBoundary = seenBoundary \<and>
   registrations (cleanupExpiredRegs [''search''] (\<lambda>i. 10) seenBoundary) ''search'' =
     [\<lparr>api = searchApi, timeRegistered = 0, lifeSpan = 10\<rparr>] \<and>
   \<not> (0 :: int) + 10 > 10 \<and>
   GetApisByApiName seenBoundary 10 ''search'' = []"
proof -
  have regs: "registrations seenBoundary ''search'' =
     [\<lparr>api = searchApi, timeRegistered = 0, lifeSpan = 10\<rparr>]"
    unfolding seenBoundary_def updateApis_registrations [OF regInv_emptyRegistry]
    by (simp add: searchApi_def)
  have dom: "set [''search''] = dom (apiRegs seenBoundary)"
    unfolding seenBoundary_def dom_updateApis by (simp add: searchApi_def emptyRegistry_def)
  have none: "findExpiredApiRegs seenBoundary 10 [''search''] = []"
    by (simp add: seenBoundary_eval regsAt_def Before_def expiry_def Add_def)
  then have same: "cleanupExpiredRegs [''search''] (\<lambda>i. 10) seenBoundary = seenBoundary"
    by (simp add: cleanupExpiredRegs_def)
  have q: "GetApisByApiName seenBoundary 10 ''search'' = []"
    by (simp add: GetApisByApiName_filter regs After_expiry)
  show ?thesis using regs dom none same q by simp
qed

section \<open>Locking\<close>

text \<open>
  Every operation calls one mutex only, so that at no point of any operation both
  mutexes are held.
\<close>

lemma stuck_no_step: "stuck c \<Longrightarrow> runSchedule (i # sched) c = None"
  by (auto simp: stuck_def stepGoroutine_def list_all_iff)

lemma GetAvailableApis_range_mutex:
  "e \<in> set (GetAvailableApis_range ks) \<Longrightarrow> mutexOf e = apisRWMutex"
  by (induction ks) (auto simp: GetApisByApiName_locks_def)

lemma locksOf_one_mutex:
  "(\<forall>e \<in> set (locksOf op). mutexOf e = apisRWMutex) \<or>
   (\<forall>e \<in> set (locksOf op). mutexOf e = ownedRegsRWMutex)"
proof (cases op)
  case (GetAvailableApisCall ks)
  then show ?thesis
    by (auto simp: GetAvailableApis_locks_def dest: GetAvailableApis_range_mutex)
next
  case (RegisterApiCall env this n v p)
  then show ?thesis
    by (auto simp: RegisterApi_locks_def ownsApi_locks_def split: option.splits)
next
  case (CleanupTick ks clk this)
  then show ?thesis
    by (auto simp: cleanupExpiredRegs_locks_def findExpiredApiRegs_locks_def)
next
  case (ListenIteration jsonDecode readFromUDP)
  then show ?thesis
    by (auto simp: listenMutlicast_locks_def updateApis_locks_def split: sum.splits)
qed (auto simp: ownsApi_locks_def processRegResends_locks_def GetApisByApiName_locks_def
      findExpiredApiRegs_locks_def updateApis_locks_def)

lemma heldCount_other:
  "(\<And>e. e \<in> set evs \<Longrightarrow> mutexOf e \<noteq> m) \<Longrightarrow> heldCount m evs = 0"
  by (induction evs) auto

lemma never_both_locks:
  "\<not> (heldCount apisRWMutex (take i (locksOf op)) > 0 \<and>
      heldCount ownedRegsRWMutex (take i (locksOf op)) > 0)"
proof -
  have sub: "e \<in> set (take i (locksOf op)) \<Longrightarrow> e \<in> set (locksOf op)" for e
    by (rule in_set_takeD)
  from locksOf_one_mutex [of op] show ?thesis
  proof
    assume "\<forall>e \<in> set (locksOf op). mutexOf e = apisRWMutex"
    then have "heldCount ownedRegsRWMutex (take i (locksOf op)) = 0"
      using sub by (intro heldCount_other) auto
    then show ?thesis by simp
  next
    assume "\<forall>e \<in> set (locksOf op). mutexOf e = ownedRegsRWMutex"
    then have "heldCount apisRWMutex (take i (locksOf op)) = 0"
      using sub by (intro heldCount_other) auto
    then show ?thesis by simp
  qed
qed

text \<open>
  Under every schedule a writer holds a mutex only when no reader does; two readers hold
  it together; a writer waits for a reader and goes on after the reader's release.
\<close>

lemma exclusive_doStep:
  assumes "exclusive mu" and "canStep mu g"
  shows "exclusive (fst (doStep mu g))"
proof (cases "todo g")
  case Nil
  then show ?thesis using assms by (simp add: doStep_def)
next
  case (Cons e rest)
  then show ?thesis using assms
    by (cases e) (auto simp: doStep_def canStep_def exclusive_def split: if_splits)
qed

lemma exclusive_stepGoroutine:
  assumes "exclusive (mutexes c)" and "stepGoroutine i c = Some c'"
  shows "exclusive (mutexes c')"
proof -
  have can: "canStep (mutexes c) (goroutines c ! i)"
    using assms(2) by (simp add: stepGoroutine_def split: if_splits)
  then have "mutexes c' = fst (doStep (mutexes c) (goroutines c ! i))"
    using assms(2) by (auto simp: stepGoroutine_def split: if_splits prod.splits)
  then show ?thesis using exclusive_doStep [OF assms(1) can] by simp
qed

lemma exclusive_runSchedule:
  "exclusive (mutexes c) \<Longrightarrow> runSchedule sched c = Some c' \<Longrightarrow> exclusive (mutexes c')"
proof (induction sched arbitrary: c)
  case Nil
  then show ?case by simp
next
  case (Cons i sched)
  from Cons.prems(2) obtain c1 where c1: "stepGoroutine i c = Some c1" "runSchedule sched c1 = Some c'"
    by (auto split: option.splits)
  from exclusive_stepGoroutine [OF Cons.prems(1) c1(1)] c1(2) show ?case by (rule Cons.IH)
qed

lemma writers_exclude_readers:
  assumes "runSchedule sched (start traces) = Some c"
  shows "\<not> (writerHeld (mutexes c m) \<and> readerCount (mutexes c m) > 0)"
proof -
  have "exclusive (mutexes (start traces))" by (simp add: exclusive_def start_def)
  from exclusive_runSchedule [OF this assms] show ?thesis by (auto simp: exclusive_def)
qed

lemma readers_share:
  "\<exists>c. runSchedule [0, 1] (start [GetApisByApiName_locks, findExpiredApiRegs_locks]) = Some c \<and>
       readerCount (mutexes c apisRWMutex) = 2 \<and>
       map todo (goroutines c) = [[RUnlock apisRWMutex], [RUnlock apisRWMutex]]"
  by (simp add: start_def GetApisByApiName_locks_def findExpiredApiRegs_locks_def
      stepGoroutine_def canStep_def doStep_def)

lemma writer_waits_for_reader:
  "\<exists>c. runSchedule [0, 1] (start [GetApisByApiName_locks, updateApis_locks]) = Some c \<and>
       runSchedule [1] c = None \<and>
       (\<exists>c'. runSchedule [0, 1, 1] c = Some c' \<and> list_all (\<lambda>g. todo g = []) (goroutines c'))"
  by (simp add: start_def GetApisByApiName_locks_def updateApis_locks_def
      stepGoroutine_def canStep_def doStep_def)

text \<open>
  Operations whose lock calls are not nested never deadlock, whatever the schedule. These
  are all operations but \<^verbatim>\<open>GetAvailableApis\<close> over a remote map that is not empty.
\<close>

lemma cnt_update:
  "i < length xs \<Longrightarrow>
   cnt P (xs[i := y]) + (if P (xs ! i) then 1 else 0) = cnt P xs + (if P y then 1 else 0)"
  unfolding cnt_def
proof (induction xs arbitrary: i)
  case Nil
  then show ?case by simp
next
  case (Cons x xs)
  then show ?case by (cases i) auto
qed

lemma cnt_pos: "x \<in> set xs \<Longrightarrow> P x \<Longrightarrow> 0 < cnt P xs"
  by (auto simp: cnt_def filter_empty_conv)

lemma cnt_zero: "cnt P xs = 0 \<longleftrightarrow> (\<forall>x \<in> set xs. \<not> P x)"
  by (auto simp: cnt_def filter_empty_conv)

lemma flat_head:
  assumes "flat evs" and "evs \<noteq> []"
  shows "\<exists>m rest. flat rest \<and>
           (evs = RLock m # RUnlock m # rest \<or> evs = Lock m # Unlock m # rest)"
proof (cases evs)
  case Nil
  then show ?thesis using assms by simp
next
  case (Cons e evs')
  show ?thesis
  proof (cases evs')
    case Nil
    then show ?thesis using assms Cons by simp
  next
    case (Cons e' rest)
    then show ?thesis using assms \<open>evs = e # evs'\<close> by auto
  qed
qed

lemma flat_hd:
  assumes "flat evs" and "evs \<noteq> []"
  shows "hd evs \<noteq> RUnlock m" and "hd evs \<noteq> Unlock m"
  using flat_head [OF assms] by auto

lemma accounted_update:
  assumes acc: "accounted c" and i: "i < length (goroutines c)"
    and wf: "wellFormed g'"
    and readers: "\<And>m. readerCount (mu' m) + (if reading m (goroutines c ! i) then 1 else 0) =
        readerCount (mutexes c m) + (if reading m g' then 1 else 0)"
    and waiters: "\<And>m. writersWaiting (mu' m) + (if waitingOn m (goroutines c ! i) then 1 else 0) =
        writersWaiting (mutexes c m) + (if waitingOn m g' then 1 else 0)"
    and writers: "\<And>m. (if writerHeld (mu' m) then 1 else 0) +
          (if writing m (goroutines c ! i) then 1 else (0::nat)) =
        (if writerHeld (mutexes c m) then 1 else 0) + (if writing m g' then 1 else 0)"
  shows "accounted \<lparr>mutexes = mu', goroutines = (goroutines c)[i := g']\<rparr>"
proof -
  have all: "\<forall>g \<in> set ((goroutines c)[i := g']). wellFormed g"
    using acc wf set_update_subset_insert [of "goroutines c" i g']
    by (auto simp: accounted_def)
  have r: "readerCount (mu' m) = cnt (reading m) ((goroutines c)[i := g'])" for m
    using cnt_update [OF i, of "reading m" g'] readers [of m] acc
    by (simp add: accounted_def)
  have w: "writersWaiting (mu' m) = cnt (waitingOn m) ((goroutines c)[i := g'])" for m
    using cnt_update [OF i, of "waitingOn m" g'] waiters [of m] acc
    by (simp add: accounted_def)
  have h: "(if writerHeld (mu' m) then 1 else 0) = cnt (writing m) ((goroutines c)[i := g'])" for m
  proof -
    have "(if writerHeld (mutexes c m) then 1 else 0) = cnt (writing m) (goroutines c)"
      using acc by (simp add: accounted_def)
    then show ?thesis
      using cnt_update [OF i, of "writing m" g'] writers [of m] by linarith
  qed
  show ?thesis
    unfolding accounted_def using all r w h by simp
qed

lemma accounted_stepGoroutine:
  assumes acc: "accounted c" and step: "stepGoroutine i c = Some c'"
  shows "accounted c'"
proof -
  define g where "g = goroutines c ! i"
  define mu where "mu = mutexes c"
  have i: "i < length (goroutines c)" and can: "canStep mu g"
    using step by (auto simp: stepGoroutine_def g_def mu_def split: if_splits)
  have c': "c' = \<lparr>mutexes = fst (doStep mu g), goroutines = (goroutines c)[i := snd (doStep mu g)]\<rparr>"
    using step by (auto simp: stepGoroutine_def g_def mu_def split: if_splits prod.splits)
  have wf: "wellFormed g"
    using acc i by (auto simp: accounted_def g_def)
  have ne: "todo g \<noteq> []" using can by (auto simp: canStep_def)
  have held: "writing m g \<Longrightarrow> writerHeld (mu m)" for m
  proof -
    assume "writing m g"
    then have "0 < cnt (writing m) (goroutines c)"
      using i by (intro cnt_pos [of g]) (auto simp: g_def)
    then show ?thesis using acc by (auto simp: accounted_def mu_def split: if_splits)
  qed
  consider (out) "outside g" | (rd) m where "reading m g" | (wr) m where "writing m g"
    | (wt) m where "waitingOn m g"
    using wf by (auto simp: wellFormed_def)
  then show ?thesis
  proof cases
    case out
    then obtain m rest where rest: "flat rest" "\<not> lockWait g"
        "todo g = RLock m # RUnlock m # rest \<or> todo g = Lock m # Unlock m # rest"
      using flat_head [OF _ ne] by (auto simp: outside_def)
    from rest(3) show ?thesis
    proof
      assume t: "todo g = RLock m # RUnlock m # rest"
      show ?thesis
        unfolding c'
        by (rule accounted_update [OF acc i])
          (use t rest can in \<open>auto simp: doStep_def canStep_def wellFormed_def reading_def
            writing_def waitingOn_def outside_def g_def [symmetric] mu_def [symmetric]
            dest: flat_hd\<close>)
    next
      assume t: "todo g = Lock m # Unlock m # rest"
      show ?thesis
        unfolding c'
        by (rule accounted_update [OF acc i])
          (use t rest can in \<open>auto simp: doStep_def canStep_def wellFormed_def reading_def
            writing_def waitingOn_def outside_def g_def [symmetric] mu_def [symmetric]
            dest: flat_hd\<close>)
    qed
  next
    case rd
    then obtain rest where t: "todo g = RUnlock m # rest" "flat rest" "\<not> lockWait g"
      by (cases "todo g") (auto simp: reading_def)
    have "0 < cnt (reading m) (goroutines c)"
      using rd i by (intro cnt_pos [of g]) (auto simp: g_def)
    then have pos: "0 < readerCount (mu m)" using acc by (simp add: accounted_def mu_def)
    show ?thesis
      unfolding c'
      by (rule accounted_update [OF acc i])
        (use t pos in \<open>auto simp: doStep_def wellFormed_def reading_def
          writing_def waitingOn_def outside_def g_def [symmetric] mu_def [symmetric]
            dest: flat_hd\<close>)
  next
    case wr
    then obtain rest where t: "todo g = Unlock m # rest" "flat rest" "\<not> lockWait g"
      by (cases "todo g") (auto simp: writing_def)
    have h: "writerHeld (mu m)" using held [OF wr] .
    show ?thesis
      unfolding c'
      by (rule accounted_update [OF acc i])
        (use t h in \<open>auto simp: doStep_def wellFormed_def reading_def
          writing_def waitingOn_def outside_def g_def [symmetric] mu_def [symmetric]
            dest: flat_hd\<close>)
  next
    case wt
    then obtain rest where t: "todo g = Lock m # Unlock m # rest" "flat rest" "lockWait g"
      using flat_head [of "todo g"] by (auto simp: waitingOn_def)
    have "0 < cnt (waitingOn m) (goroutines c)"
      using wt i by (intro cnt_pos [of g]) (auto simp: g_def)
    then have pos: "0 < writersWaiting (mu m)" using acc by (simp add: accounted_def mu_def)
    show ?thesis
      unfolding c'
      by (rule accounted_update [OF acc i])
        (use t pos can in \<open>auto simp: doStep_def canStep_def wellFormed_def reading_def
          writing_def waitingOn_def outside_def g_def [symmetric] mu_def [symmetric]
            dest: flat_hd\<close>)
  qed
qed

lemma accounted_runSchedule:
  "accounted c \<Longrightarrow> runSchedule sched c = Some c' \<Longrightarrow> accounted c'"
proof (induction sched arbitrary: c)
  case Nil
  then show ?case by simp
next
  case (Cons i sched)
  from Cons.prems(2) obtain c1 where c1: "stepGoroutine i c = Some c1" "runSchedule sched c1 = Some c'"
    by (auto split: option.splits)
  from accounted_stepGoroutine [OF Cons.prems(1) c1(1)] c1(2) show ?case by (rule Cons.IH)
qed

lemma accounted_start:
  assumes "\<And>evs. evs \<in> set traces \<Longrightarrow> flat evs"
  shows "accounted (start traces)"
proof -
  have out: "outside g" if "g \<in> set (goroutines (start traces))" for g
    using that assms by (auto simp: start_def outside_def)
  have no: "\<not> reading m g \<and> \<not> writing m g \<and> \<not> waitingOn m g"
    if "g \<in> set (goroutines (start traces))" for g m
    using out [OF that] by (auto simp: outside_def reading_def writing_def waitingOn_def dest: flat_hd)
  have "cnt (reading m) (goroutines (start traces)) = 0"
    "cnt (writing m) (goroutines (start traces)) = 0"
    "cnt (waitingOn m) (goroutines (start traces)) = 0" for m
    using no by (simp_all add: cnt_zero)
  moreover have "mutexes (start traces) m =
      \<lparr>readerCount = 0, writerHeld = False, writersWaiting = 0\<rparr>" for m
    by (simp add: start_def)
  ultimately show ?thesis
    using out by (simp add: accounted_def wellFormed_def)
qed

lemma accounted_not_stuck:
  assumes acc: "accounted c"
  shows "\<not> stuck c"
proof
  assume st: "stuck c"
  define gs where "gs = goroutines c"
  define mu where "mu = mutexes c"
  have blocked: "\<not> canStep mu g" if "g \<in> set gs" for g
    using st that by (auto simp: stuck_def list_all_iff gs_def mu_def)
  have wf: "wellFormed g" if "g \<in> set gs" for g
    using acc that by (auto simp: accounted_def gs_def)
  have nord: "\<not> reading m g" if "g \<in> set gs" for g m
    using blocked [OF that] by (cases "todo g") (auto simp: reading_def canStep_def)
  have nowr: "\<not> writing m g" if "g \<in> set gs" for g m
    using blocked [OF that] by (cases "todo g") (auto simp: writing_def canStep_def)
  have "cnt (reading m) gs = 0" "cnt (writing m) gs = 0" for m
    using nord nowr by (simp_all add: cnt_zero)
  then have free: "readerCount (mu m) = 0" "\<not> writerHeld (mu m)" for m
    using acc by (auto simp: accounted_def gs_def mu_def split: if_splits)
  have nowt: "\<not> waitingOn m g" if "g \<in> set gs" for g m
  proof
    assume "waitingOn m g"
    then have "canStep mu g"
      using free [of m] by (cases "todo g") (auto simp: waitingOn_def canStep_def)
    then show False using blocked [OF that] by simp
  qed
  then have "cnt (waitingOn m) gs = 0" for m by (simp add: cnt_zero)
  then have nowait: "writersWaiting (mu m) = 0" for m
    using acc by (simp add: accounted_def gs_def mu_def)
  obtain g where g: "g \<in> set gs" "todo g \<noteq> []"
    using st by (auto simp: stuck_def list_ex_iff gs_def)
  have "outside g"
    using wf [OF g(1)] nord [OF g(1)] nowr [OF g(1)] nowt [OF g(1)] by (simp add: wellFormed_def)
  then obtain m rest where
      "\<not> lockWait g" "todo g = RLock m # RUnlock m # rest \<or> todo g = Lock m # Unlock m # rest"
    using flat_head [OF _ g(2)] by (auto simp: outside_def)
  then have "canStep mu g"
    using free [of m] nowait [of m] by (auto simp: canStep_def)
  then show False using blocked [OF g(1)] by simp
qed

lemma flat_GetAvailableApis_locks_Nil: "flat (GetAvailableApis_locks [])"
  by (simp add: GetAvailableApis_locks_def)

lemma flat_locksOf:
  assumes "\<And>k ks. op \<noteq> GetAvailableApisCall (k # ks)"
  shows "flat (locksOf op)"
proof (cases op)
  case (GetAvailableApisCall ks)
  then have "ks = []" using assms by (cases ks) auto
  then show ?thesis using GetAvailableApisCall by (simp add: GetAvailableApis_locks_def)
next
  case (RegisterApiCall env this n v p)
  then show ?thesis
    by (auto simp: RegisterApi_locks_def ownsApi_locks_def split: option.splits)
next
  case (CleanupTick ks clk this)
  then show ?thesis
    by (auto simp: cleanupExpiredRegs_locks_def findExpiredApiRegs_locks_def)
next
  case (ListenIteration jsonDecode readFromUDP)
  then show ?thesis
    by (auto simp: listenMutlicast_locks_def updateApis_locks_def split: sum.splits)
qed (auto simp: ownsApi_locks_def processRegResends_locks_def GetApisByApiName_locks_def
      findExpiredApiRegs_locks_def updateApis_locks_def)

lemma no_deadlock_without_nested_RLock:
  assumes "\<And>op k ks. op \<in> set ops \<Longrightarrow> op \<noteq> GetAvailableApisCall (k # ks)"
    and "runSchedule sched (start (map locksOf ops)) = Some c"
  shows "\<not> stuck c"
proof -
  have "flat evs" if "evs \<in> set (map locksOf ops)" for evs
    using that assms(1) flat_locksOf by auto
  then have "accounted (start (map locksOf ops))" by (rule accounted_start)
  from accounted_runSchedule [OF this assms(2)] show ?thesis by (rule accounted_not_stuck)
qed


end
